theory Spec2Isabelle
  imports Main "HOL-Library.AList"
begin

section \<open>Data model\<close>

text \<open>
  The conditions that leave \<open>init\<close>. Both directive conditions are the class
  \<open>ApplesDirectiveException\<close> of the source, told apart by their message
  (\<open>"Denied plugin"\<close>, \<open>"Plugins are being blocked from loading ..."\<close>).
  \<open>KeyError\<close> is Python's own, raised by indexing a dict with an absent key; it
  carries that key. \<open>ModuleLoadError\<close> and \<open>MethodError\<close> are whatever
  \<open>importlib.import_module\<close> and the call of a hook raise. \<open>TypeError\<close> and
  \<open>AttributeError\<close> are Python's own, raised by \<open>_load_plugin\<close> when an attribute
  of the \<open>plugins\<close> package that it takes for a dict is a module; they carry the name
  of the attribute and of the missing method.
\<close>

datatype error =
    KeyError string
  | DeniedPlugin
  | DirectiveDeadlock
  | ModuleLoadError string
  | MethodError string string
  | TypeError string
  | AttributeError string

text \<open>
  A directive is a dict \<open>{"directive": kind, "module": ref, ...}\<close>. The tag selects
  a function in the table \<open>_load_directives\<close>; a tag outside the table is
  \<open>OtherDirective\<close>. \<open>RunAfterLoad\<close> carries the reference, the method name and
  the \<open>executed\<close> entry, which \<open>setdefault\<close> reads as \<open>False\<close> when absent.
\<close>

datatype directive =
    LoadBefore string
  | LoadAfter string
  | LoadDeny string
  | RunAfterLoad string string bool
  | OtherDirective string

text \<open>
  The parsed JSON of one manifest file: a dict in which every key may be absent.
\<close>

record manifest =
  m_format :: "string option"
  m_name :: "string option"
  m_human_name :: "string option"
  m_service :: "string option"
  m_requirements :: "string list option"
  m_load_directives :: "directive list option"
  m_files :: "string list option"

text \<open>
  An entry of \<open>plugin_data\<close>: the normalized manifest with the two flags that
  \<open>_load_plugin_manifests\<close> adds. Only \<open>"service"\<close> can still be absent.
\<close>

record plugin_entry =
  name :: string
  human_name :: string
  service :: "string option"
  requirements :: "string list"
  load_directives :: "directive list"
  files :: "string list"
  loaded :: bool
  can_load :: bool

text \<open>
  What a run does, in order: the start of an iteration of the loop of
  \<open>_load_plugins\<close>, a call of \<open>importlib.import_module\<close> for a plugin, a call of
  a method of a plugin's module by \<open>run-after-load\<close>.
\<close>

datatype event = Cycle | Import string | Invoke string string

text \<open>
  The mutable state of a run: the dict \<open>plugin_data\<close> (insertion ordered), the
  three dicts of the \<open>plugins\<close> package and the events so far.
\<close>

record 'h world =
  plugin_data :: "(string \<times> plugin_entry) list"
  plugins :: "(string \<times> 'h) list"
  services :: "(string \<times> 'h list) list"
  plugins_plugin_data :: "(string \<times> plugin_entry) list"
  trace :: "event list"

text \<open>
  The code outside the repository: importing the module of a plugin (\<open>None\<close> when
  the import raises) and calling a method of a module (\<open>False\<close> when the
  attribute lookup or the call raises).
\<close>

record 'h loader =
  import_module :: "string \<Rightarrow> 'h option"
  call_method :: "'h \<Rightarrow> string \<Rightarrow> bool"

type_synonym 's result = "(error \<times> 's) + 's"

section \<open>Manifests\<close>

definition parse_apm_json_0_1_0 :: "manifest \<Rightarrow> error + manifest" where
  "parse_apm_json_0_1_0 plugin_manifest =
     (case (case m_human_name plugin_manifest of
              Some h \<Rightarrow> Inr h
            | None \<Rightarrow> (case m_name plugin_manifest of
                         None \<Rightarrow> Inl (KeyError ''name'')
                       | Some n \<Rightarrow> Inr n)) of
        Inl e \<Rightarrow> Inl e
      | Inr plugin_human_name \<Rightarrow>
          Inr (plugin_manifest
                \<lparr> m_human_name := Some plugin_human_name,
                  m_requirements := Some (case m_requirements plugin_manifest of
                                            None \<Rightarrow> [] | Some r \<Rightarrow> r),
                  m_load_directives := Some (case m_load_directives plugin_manifest of
                                               None \<Rightarrow> [] | Some d \<Rightarrow> d),
                  m_files := Some (case m_files plugin_manifest of
                                     None \<Rightarrow> [] | Some f \<Rightarrow> f) \<rparr>))"

definition apm_json_handlers :: "string \<Rightarrow> (manifest \<Rightarrow> error + manifest) option" where
  "apm_json_handlers fmt =
     (if fmt = ''0.1.0'' then Some parse_apm_json_0_1_0 else None)"

definition apm_handler :: "manifest \<Rightarrow> manifest list \<Rightarrow> error + manifest list" where
  "apm_handler plugin_manifest manifests =
     (case m_format plugin_manifest of
        None \<Rightarrow> Inl (KeyError ''format'')
      | Some fmt \<Rightarrow>
          (case apm_json_handlers fmt of
             None \<Rightarrow> Inl (KeyError fmt)
           | Some handler \<Rightarrow>
               (case handler plugin_manifest of
                  Inl e \<Rightarrow> Inl e
                | Inr p_m \<Rightarrow>
                    (case m_name p_m of
                       None \<Rightarrow> Inl (KeyError ''name'')
                     | Some _ \<Rightarrow> Inr (manifests @ [p_m])))))"

fun read_manifests :: "manifest list \<Rightarrow> manifest list \<Rightarrow> error + manifest list" where
  "read_manifests [] manifests = Inr manifests"
| "read_manifests (f # fs) manifests =
     (case apm_handler f manifests of
        Inl e \<Rightarrow> Inl e
      | Inr manifests' \<Rightarrow> read_manifests fs manifests')"

fun register :: "manifest list \<Rightarrow> (string \<times> plugin_entry) list
    \<Rightarrow> error + (string \<times> plugin_entry) list" where
  "register [] pd = Inr pd"
| "register (m # ms) pd =
     (case (m_name m, m_human_name m, m_requirements m, m_load_directives m, m_files m) of
        (Some n, Some h, Some r, Some d, Some f) \<Rightarrow>
          register ms
            (AList.update n
               \<lparr> name = n, human_name = h, service = m_service m, requirements = r,
                 load_directives = d, files = f, loaded = False, can_load = False \<rparr> pd)
      | (None, _) \<Rightarrow> Inl (KeyError ''name'')
      | (_, None, _) \<Rightarrow> Inl (KeyError ''human-name'')
      | (_, _, None, _) \<Rightarrow> Inl (KeyError ''requirements'')
      | (_, _, _, None, _) \<Rightarrow> Inl (KeyError ''load-directives'')
      | _ \<Rightarrow> Inl (KeyError ''files''))"

definition load_plugin_manifests :: "manifest list \<Rightarrow> (string \<times> plugin_entry) list
    \<Rightarrow> error + (string \<times> plugin_entry) list" where
  "load_plugin_manifests found plugin_data0 =
     (case read_manifests found [] of
        Inl e \<Rightarrow> Inl e
      | Inr manifests \<Rightarrow> register manifests plugin_data0)"

section \<open>Resolving references\<close>

text \<open>
  \<open>_resolve_plugin_name\<close> is a generator: the loop that consumes it sees the names
  it yields one by one, and then the \<open>KeyError\<close> of an entry without
  \<open>"service"\<close>, if the scan reaches one. The result is the names yielded and the
  failure that ends the scan, if any. The loops below only write the flags, which
  the scan does not read.
\<close>

fun scan_services :: "string \<Rightarrow> (string \<times> plugin_entry) list
    \<Rightarrow> string list \<times> error option" where
  "scan_services s [] = ([], None)"
| "scan_services s ((k, plugin_entry) # rest) =
     (case service plugin_entry of
        None \<Rightarrow> ([], Some (KeyError ''service''))
      | Some v \<Rightarrow>
          (if v = s
           then (name plugin_entry # fst (scan_services s rest), snd (scan_services s rest))
           else scan_services s rest))"

definition resolve_plugin_name :: "string \<Rightarrow> (string \<times> plugin_entry) list
    \<Rightarrow> string list \<times> error option" where
  "resolve_plugin_name plugin_name pd =
     (if take 1 plugin_name = ''$''
      then scan_services (drop 1 plugin_name) pd
      else ([plugin_name], None))"

section \<open>Loops\<close>

fun for_each :: "('a \<Rightarrow> 's \<Rightarrow> 's result) \<Rightarrow> 'a list \<Rightarrow> 's \<Rightarrow> 's result" where
  "for_each body [] s = Inr s"
| "for_each body (x # xs) s =
     (case body x s of
        Inl r \<Rightarrow> Inl r
      | Inr s' \<Rightarrow> for_each body xs s')"

definition for_yielded :: "('a \<Rightarrow> 's \<Rightarrow> 's result) \<Rightarrow> 'a list \<times> error option \<Rightarrow> 's
    \<Rightarrow> 's result" where
  "for_yielded body gen s =
     (case for_each body (fst gen) s of
        Inl r \<Rightarrow> Inl r
      | Inr s' \<Rightarrow> (case snd gen of None \<Rightarrow> Inr s' | Some e \<Rightarrow> Inl (e, s')))"

text \<open>
  The loops of the scheduler hold a reference to a value of \<open>plugin_data\<close>; in the
  model the reference is the key under which the loop found the value.
\<close>

definition entry_of :: "(string \<times> plugin_entry) list \<Rightarrow> string \<Rightarrow> plugin_entry" where
  "entry_of pd k = the (map_of pd k)"

definition clear_can_load :: "string \<Rightarrow> 'h world \<Rightarrow> 'h world" where
  "clear_can_load k w =
     w\<lparr>plugin_data := AList.map_entry k (\<lambda>e. e\<lparr>can_load := False\<rparr>) (plugin_data w)\<rparr>"

section \<open>Directives\<close>

definition directive_load_before :: "string \<Rightarrow> string \<Rightarrow> 'h world \<Rightarrow> 'h world result" where
  "directive_load_before module_name_formula k w =
     for_yielded
       (\<lambda>module_name w.
          case map_of (plugin_data w) module_name of
            None \<Rightarrow> Inl (KeyError module_name, w)
          | Some module_entry \<Rightarrow>
              if \<not> loaded (entry_of (plugin_data w) k)
              then Inr (clear_can_load module_name w)
              else Inr w)
       (resolve_plugin_name module_name_formula (plugin_data w)) w"

definition directive_load_after :: "string \<Rightarrow> string \<Rightarrow> 'h world \<Rightarrow> 'h world result" where
  "directive_load_after module_name_formula k w =
     for_yielded
       (\<lambda>module_name w.
          case map_of (plugin_data w) module_name of
            None \<Rightarrow> Inl (KeyError module_name, w)
          | Some module_entry \<Rightarrow>
              if \<not> loaded module_entry
              then Inr (clear_can_load k w)
              else Inr w)
       (resolve_plugin_name module_name_formula (plugin_data w)) w"

definition directive_load_deny :: "string \<Rightarrow> string \<Rightarrow> 'h world \<Rightarrow> 'h world result" where
  "directive_load_deny module_name_formula k w =
     for_yielded
       (\<lambda>module_name w.
          case map_of (plugin_data w) module_name of
            None \<Rightarrow> Inl (KeyError module_name, w)
          | Some module_entry \<Rightarrow>
              if module_name = name (entry_of (plugin_data w) k)
              then Inr w
              else if map_of (plugin_data w) module_name \<noteq> None
              then Inl (DeniedPlugin, w)
              else Inr w)
       (resolve_plugin_name module_name_formula (plugin_data w)) w"

text \<open>
  The loop of \<open>_directive_run_after_load\<close> returns at the first required module
  that is not loaded; \<open>Inr False\<close> is that return.
\<close>

fun required_loaded :: "(string \<times> plugin_entry) list \<Rightarrow> string list \<Rightarrow> error + bool" where
  "required_loaded pd [] = Inr True"
| "required_loaded pd (module_name # rest) =
     (case map_of pd module_name of
        None \<Rightarrow> Inl (KeyError module_name)
      | Some module_entry \<Rightarrow>
          if \<not> loaded module_entry then Inr False else required_loaded pd rest)"

text \<open>
  The directive dict is mutated in place: the model returns it with the world, and
  the loop over the directives of an entry stores it back.
\<close>

definition directive_run_after_load :: "'h loader \<Rightarrow> string \<Rightarrow> string \<Rightarrow> bool \<Rightarrow> string
    \<Rightarrow> 'h world \<Rightarrow> (directive \<times> 'h world) result" where
  "directive_run_after_load L module_name_formula method_name executed k w =
     (let gen = resolve_plugin_name module_name_formula (plugin_data w);
          plugin_name = name (entry_of (plugin_data w) k);
          directive = RunAfterLoad module_name_formula method_name executed
      in if \<not> executed
         then (case required_loaded (plugin_data w) (fst gen) of
                 Inl e \<Rightarrow> Inl (e, directive, w)
               | Inr False \<Rightarrow> Inr (directive, w)
               | Inr True \<Rightarrow>
                   (case snd gen of
                      Some e \<Rightarrow> Inl (e, directive, w)
                    | None \<Rightarrow>
                        if loaded (entry_of (plugin_data w) k)
                        then (let directive' = RunAfterLoad module_name_formula method_name True
                              in case map_of (plugins w) plugin_name of
                                   None \<Rightarrow> Inl (KeyError plugin_name, directive', w)
                                 | Some plugin_module \<Rightarrow>
                                     (let w' = w\<lparr>trace := trace w @ [Invoke plugin_name method_name]\<rparr>
                                      in if call_method L plugin_module method_name
                                         then Inr (directive', w')
                                         else Inl (MethodError plugin_name method_name,
                                                   directive', w')))
                        else Inr (directive, w)))
         else Inr (directive, w))"

definition unchanged :: "directive \<Rightarrow> 'h world result \<Rightarrow> (directive \<times> 'h world) result" where
  "unchanged directive r =
     (case r of Inl (e, w) \<Rightarrow> Inl (e, directive, w) | Inr w \<Rightarrow> Inr (directive, w))"

fun load_directive :: "'h loader \<Rightarrow> directive \<Rightarrow> string \<Rightarrow> 'h world
    \<Rightarrow> (directive \<times> 'h world) result" where
  "load_directive L (LoadAfter m) k w = unchanged (LoadAfter m) (directive_load_after m k w)"
| "load_directive L (LoadBefore m) k w = unchanged (LoadBefore m) (directive_load_before m k w)"
| "load_directive L (LoadDeny m) k w = unchanged (LoadDeny m) (directive_load_deny m k w)"
| "load_directive L (RunAfterLoad m method ex) k w = directive_run_after_load L m method ex k w"
| "load_directive L (OtherDirective tag) k w = Inl (KeyError tag, OtherDirective tag, w)"

section \<open>The scheduler\<close>

fun apply_directives :: "'h loader \<Rightarrow> string \<Rightarrow> directive list \<Rightarrow> 'h world
    \<Rightarrow> (directive list \<times> 'h world) result" where
  "apply_directives L k [] w = Inr ([], w)"
| "apply_directives L k (directive # rest) w =
     (case load_directive L directive k w of
        Inl (e, directive', w') \<Rightarrow> Inl (e, directive' # rest, w')
      | Inr (directive', w') \<Rightarrow>
          (case apply_directives L k rest w' of
             Inl (e, rest', w'') \<Rightarrow> Inl (e, directive' # rest', w'')
           | Inr (rest', w'') \<Rightarrow> Inr (directive' # rest', w'')))"

definition store_directives :: "string \<Rightarrow> directive list \<Rightarrow> 'h world \<Rightarrow> 'h world" where
  "store_directives k ds w =
     w\<lparr>plugin_data := AList.map_entry k (\<lambda>e. e\<lparr>load_directives := ds\<rparr>) (plugin_data w)\<rparr>"

definition apply_entry_directives :: "'h loader \<Rightarrow> string \<Rightarrow> 'h world \<Rightarrow> 'h world result" where
  "apply_entry_directives L k w =
     (case apply_directives L k (load_directives (entry_of (plugin_data w) k)) w of
        Inl (e, ds, w') \<Rightarrow> Inl (e, store_directives k ds w')
      | Inr (ds, w') \<Rightarrow> Inr (store_directives k ds w'))"

text \<open>
  \<open>_load_plugin\<close>. A successful import binds the module to the attribute of the
  \<open>plugins\<close> package that carries the plugin's name. For a plugin named
  \<open>plugins\<close>, \<open>services\<close> or \<open>plugin_data\<close> that attribute held one of the three
  dicts: the line that writes to the dict then finds the module and raises (a module
  takes no item assignment and has no \<open>setdefault\<close>). The lines before it have run,
  \<open>loaded\<close> stays \<open>False\<close>, and the run ends; the world keeps the dict that the
  attribute held before.
\<close>

definition load_plugin :: "'h loader \<Rightarrow> string \<Rightarrow> 'h world \<Rightarrow> 'h world result" where
  "load_plugin L k w =
     (let plugin_entry = entry_of (plugin_data w) k;
          plugin_name = name plugin_entry;
          plugin_service = name plugin_entry;
          w1 = w\<lparr>trace := trace w @ [Import plugin_name]\<rparr>
      in case import_module L plugin_name of
           None \<Rightarrow> Inl (ModuleLoadError plugin_name, w1)
         | Some plugin_module \<Rightarrow>
             if plugin_name = ''plugins'' then Inl (TypeError ''plugins'', w1)
             else
               (let w2 = w1\<lparr>plugins := AList.update plugin_name plugin_module (plugins w1)\<rparr>
                in if plugin_name = ''services'' then Inl (AttributeError ''setdefault'', w2)
                   else
                     (let w3 = w2\<lparr>services :=
                                  AList.update plugin_service
                                    ((case map_of (services w2) plugin_service of
                                        None \<Rightarrow> [] | Some hs \<Rightarrow> hs) @ [plugin_module])
                                    (services w2)\<rparr>
                      in if plugin_name = ''plugin_data''
                         then Inl (TypeError ''plugin_data'', w3)
                         else Inr (w3\<lparr> plugins_plugin_data :=
                                          AList.update plugin_name plugin_entry
                                            (plugins_plugin_data w3),
                                        plugin_data :=
                                          AList.map_entry k (\<lambda>e. e\<lparr>loaded := True\<rparr>)
                                            (plugin_data w3) \<rparr>))))"

text \<open>The third loop of a cycle, with its two local flags.\<close>

definition load_step :: "'h loader \<Rightarrow> string \<Rightarrow> 'h world \<times> bool \<times> bool
    \<Rightarrow> ('h world \<times> bool \<times> bool) result" where
  "load_step L k s =
     (case s of (w, loaded_any, loaded_all) \<Rightarrow>
        if \<not> loaded (entry_of (plugin_data w) k)
        then (if can_load (entry_of (plugin_data w) k)
              then (case load_plugin L k w of
                      Inl (e, w') \<Rightarrow> Inl (e, (w', True, False))
                    | Inr w' \<Rightarrow> Inr (w', True, False))
              else Inr (w, loaded_any, False))
        else Inr (w, loaded_any, loaded_all))"

definition reset_can_load :: "'h world \<Rightarrow> 'h world" where
  "reset_can_load w =
     w\<lparr>plugin_data := map (\<lambda>(k, e). (k, e\<lparr>can_load := True\<rparr>)) (plugin_data w)\<rparr>"

definition apply_load_directives :: "'h loader \<Rightarrow> 'h world \<Rightarrow> 'h world result" where
  "apply_load_directives L w = for_each (apply_entry_directives L) (map fst (plugin_data w)) w"

definition load_loop :: "'h loader \<Rightarrow> 'h world \<Rightarrow> ('h world \<times> bool \<times> bool) result" where
  "load_loop L w = for_each (load_step L) (map fst (plugin_data w)) (w, False, True)"

text \<open>One iteration of \<open>while True\<close>, up to the two tests that end it.\<close>

definition cycle :: "'h loader \<Rightarrow> 'h world \<Rightarrow> ('h world \<times> bool \<times> bool) result" where
  "cycle L w =
     (case apply_load_directives L (reset_can_load (w\<lparr>trace := trace w @ [Cycle]\<rparr>)) of
        Inl (e, w') \<Rightarrow> Inl (e, (w', False, True))
      | Inr w' \<Rightarrow> load_loop L w')"

definition unloaded :: "'h world \<Rightarrow> nat" where
  "unloaded w = length (filter (\<lambda>(k, e). \<not> loaded e) (plugin_data w))"


section \<open>The loop of the scheduler ends\<close>

lemma for_each_Inr:
  assumes "for_each body xs s = Inr s'" and "P s"
    and "\<And>x t t'. x \<in> set xs \<Longrightarrow> P t \<Longrightarrow> body x t = Inr t' \<Longrightarrow> P t'"
  shows "P s'"
  using assms
proof (induction xs arbitrary: s)
  case Nil
  then show ?case by simp
next
  case (Cons x xs)
  from Cons.prems(1) obtain t where t: "body x s = Inr t" and r: "for_each body xs t = Inr s'"
    by (auto split: sum.splits)
  have "P t" using Cons.prems(2,3) t by auto
  then show ?case using Cons.IH [OF r] Cons.prems(3) by auto
qed

lemma for_yielded_Inr:
  assumes "for_yielded body gen s = Inr s'" and "P s"
    and "\<And>x t t'. x \<in> set (fst gen) \<Longrightarrow> P t \<Longrightarrow> body x t = Inr t' \<Longrightarrow> P t'"
  shows "P s'"
  using assms unfolding for_yielded_def
  by (auto split: sum.splits option.splits elim: for_each_Inr [where P = P])

definition keys :: "'h world \<Rightarrow> string list" where
  "keys w = map fst (plugin_data w)"

definition loaded_flags :: "'h world \<Rightarrow> bool list" where
  "loaded_flags w = map (\<lambda>p. loaded (snd p)) (plugin_data w)"

lemma map_fst_map_entry: "map fst (AList.map_entry k f pd) = map fst pd"
  by (induction pd) auto

lemma flags_map_entry:
  "(\<And>e. loaded (f e) = loaded e) \<Longrightarrow>
   map (\<lambda>p. loaded (snd p)) (AList.map_entry k f pd) = map (\<lambda>p. loaded (snd p)) pd"
  by (induction pd) auto

lemma clear_can_load_keep [simp]:
  "keys (clear_can_load k w) = keys w" "loaded_flags (clear_can_load k w) = loaded_flags w"
  by (simp_all add: keys_def loaded_flags_def clear_can_load_def map_fst_map_entry flags_map_entry)

lemma store_directives_keep [simp]:
  "keys (store_directives k ds w) = keys w" "loaded_flags (store_directives k ds w) = loaded_flags w"
  by (simp_all add: keys_def loaded_flags_def store_directives_def map_fst_map_entry flags_map_entry)

lemma reset_can_load_keep [simp]:
  "keys (reset_can_load w) = keys w" "loaded_flags (reset_can_load w) = loaded_flags w"
  by (simp_all add: keys_def loaded_flags_def reset_can_load_def case_prod_beta comp_def)

lemma load_before_keep:
  "directive_load_before m k w = Inr w' \<Longrightarrow> keys w' = keys w \<and> loaded_flags w' = loaded_flags w"
  unfolding directive_load_before_def
  by (erule for_yielded_Inr) (auto split: option.splits if_splits)

lemma load_after_keep:
  "directive_load_after m k w = Inr w' \<Longrightarrow> keys w' = keys w \<and> loaded_flags w' = loaded_flags w"
  unfolding directive_load_after_def
  by (erule for_yielded_Inr) (auto split: option.splits if_splits)

lemma load_deny_keep:
  "directive_load_deny m k w = Inr w' \<Longrightarrow> keys w' = keys w \<and> loaded_flags w' = loaded_flags w"
  unfolding directive_load_deny_def
  by (erule for_yielded_Inr) (auto split: option.splits if_splits)

lemma run_after_load_keep:
  "directive_run_after_load L m meth ex k w = Inr (d, w') \<Longrightarrow>
   keys w' = keys w \<and> loaded_flags w' = loaded_flags w"
  unfolding directive_run_after_load_def Let_def
  by (auto split: if_splits sum.splits bool.splits option.splits simp: keys_def loaded_flags_def)

lemma load_directive_keep:
  "load_directive L d k w = Inr (d', w') \<Longrightarrow> keys w' = keys w \<and> loaded_flags w' = loaded_flags w"
  by (cases d)
     (auto simp: unchanged_def split: sum.splits prod.splits
           dest: load_before_keep load_after_keep load_deny_keep run_after_load_keep)

lemma apply_directives_keep:
  "apply_directives L k ds w = Inr (ds', w') \<Longrightarrow> keys w' = keys w \<and> loaded_flags w' = loaded_flags w"
proof (induction ds arbitrary: w ds')
  case Nil
  then show ?case by simp
next
  case (Cons d ds)
  then show ?case
    by (auto split: sum.splits prod.splits dest!: load_directive_keep)
qed

lemma apply_entry_directives_keep:
  "apply_entry_directives L k w = Inr w' \<Longrightarrow> keys w' = keys w \<and> loaded_flags w' = loaded_flags w"
  unfolding apply_entry_directives_def
  by (auto split: sum.splits prod.splits dest!: apply_directives_keep)

lemma apply_load_directives_keep:
  assumes "apply_load_directives L w = Inr w'"
  shows "keys w' = keys w \<and> loaded_flags w' = loaded_flags w"
  using assms unfolding apply_load_directives_def
  by (rule for_each_Inr) (auto dest: apply_entry_directives_keep)

lemma unloaded_flags: "unloaded w = length (filter Not (loaded_flags w))"
  by (simp add: unloaded_def loaded_flags_def filter_map comp_def split_def)

lemma load_plugin_shape:
  "case load_plugin L k w of
     Inr w' \<Rightarrow>
       plugin_data w' = AList.map_entry k (\<lambda>e. e\<lparr>loaded := True\<rparr>) (plugin_data w) \<and>
       trace w' = trace w @ [Import (name (entry_of (plugin_data w) k))]
   | Inl (e, w') \<Rightarrow>
       plugin_data w' = plugin_data w \<and>
       trace w' = trace w @ [Import (name (entry_of (plugin_data w) k))]"
  by (simp add: load_plugin_def Let_def split: option.splits)

lemma load_plugin_keys: "load_plugin L k w = Inr w' \<Longrightarrow> keys w' = keys w"
  using load_plugin_shape [where L = L and k = k and w = w] by (simp add: keys_def map_fst_map_entry)

lemma unloaded_map_entry:
  "map_of pd k = Some e \<Longrightarrow> \<not> loaded e \<Longrightarrow>
   length (filter (\<lambda>(k, e). \<not> loaded e) (AList.map_entry k (\<lambda>e. e\<lparr>loaded := True\<rparr>) pd))
     < length (filter (\<lambda>(k, e). \<not> loaded e) pd)"
  by (induction pd) (auto split: if_splits)

lemma load_plugin_unloaded:
  assumes "load_plugin L k w = Inr w'" and "k \<in> set (keys w)"
    and "\<not> loaded (entry_of (plugin_data w) k)"
  shows "unloaded w' < unloaded w"
proof -
  from assms(2) obtain e where e: "map_of (plugin_data w) k = Some e"
    by (auto simp: keys_def dest!: weak_map_of_SomeI)
  with assms(3) have "\<not> loaded e" by (simp add: entry_of_def)
  from unloaded_map_entry [OF e this] assms(1) load_plugin_shape [where L = L and k = k and w = w] show ?thesis
    by (simp add: unloaded_def)
qed

lemma load_step_measure:
  assumes "load_step L k (w, a, b) = Inr (w', a', b')" and "k \<in> set (keys w)"
  shows "keys w' = keys w \<and> unloaded w' \<le> unloaded w \<and> (a' \<longrightarrow> a \<or> unloaded w' < unloaded w)"
  using assms
  by (auto simp: load_step_def split: if_splits sum.splits prod.splits
           dest: load_plugin_keys load_plugin_unloaded less_imp_le)

lemma load_loop_measure:
  assumes "load_loop L w = Inr (w', a, b)"
  shows "unloaded w' \<le> unloaded w \<and> (a \<longrightarrow> unloaded w' < unloaded w)"
proof -
  let ?P = "\<lambda>s. case s of (v, a, b) \<Rightarrow>
              keys v = keys w \<and> unloaded v \<le> unloaded w \<and> (a \<longrightarrow> unloaded v < unloaded w)"
  have "?P (w', a, b)"
    using assms [unfolded load_loop_def]
  proof (rule for_each_Inr)
    show "?P (w, False, True)" by simp
  next
    fix x t t'
    assume x: "x \<in> set (map fst (plugin_data w))" and t: "?P t" and b: "load_step L x t = Inr t'"
    obtain v a b where tv: "t = (v, a, b)" by (cases t) auto
    obtain v' a' b' where tv': "t' = (v', a', b')" by (cases t') auto
    from x t tv have "x \<in> set (keys v)" by (simp add: keys_def)
    from load_step_measure [OF b [unfolded tv tv'] this] t tv tv'
    show "?P t'" by auto
  qed
  then show ?thesis by simp
qed

lemma cycle_measure:
  assumes "cycle L w = Inr (w', True, b)"
  shows "unloaded w' < unloaded w"
proof -
  from assms obtain v
    where v: "apply_load_directives L (reset_can_load (w\<lparr>trace := trace w @ [Cycle]\<rparr>)) = Inr v"
    and l: "load_loop L v = Inr (w', True, b)"
    by (auto simp: cycle_def split: sum.splits prod.splits)
  from apply_load_directives_keep [OF v] have "unloaded v = unloaded w"
    by (simp add: unloaded_flags) (simp add: loaded_flags_def)
  with load_loop_measure [OF l] show ?thesis by simp
qed

text \<open>
  \<open>_load_plugins\<close>: the loop runs a cycle, returns the \<open>plugins\<close> package when every
  entry was found loaded, raises when nothing could be loaded, and goes on otherwise.
\<close>

function load_plugins :: "'h loader \<Rightarrow> 'h world \<Rightarrow> 'h world result" where
  "load_plugins L w =
     (case cycle L w of
        Inl (e, (w', _, _)) \<Rightarrow> Inl (e, w')
      | Inr (w', loaded_any, loaded_all) \<Rightarrow>
          if loaded_all then Inr w'
          else if \<not> loaded_any then Inl (DirectiveDeadlock, w')
          else load_plugins L w')"
  by pat_completeness auto
termination load_plugins
  by (relation "measure (\<lambda>(L, w). unloaded w)") (auto dest: cycle_measure)

declare load_plugins.simps [simp del]

definition start :: "(string \<times> plugin_entry) list \<Rightarrow> 'h world" where
  "start pd =
     \<lparr>plugin_data = pd, plugins = [], services = [], plugins_plugin_data = [], trace = []\<rparr>"

text \<open>
  \<open>init\<close>, on the parsed contents of the manifest files in the order in which the
  directory lists them.
\<close>

definition init :: "'h loader \<Rightarrow> manifest list \<Rightarrow> 'h world result" where
  "init L found =
     (case load_plugin_manifests found [] of
        Inl e \<Rightarrow> Inl (e, start [])
      | Inr pd \<Rightarrow> load_plugins L (start pd))"


section \<open>Observing a run\<close>

definition final :: "'s result \<Rightarrow> 's" where
  "final r = (case r of Inl (e, s) \<Rightarrow> s | Inr s \<Rightarrow> s)"

definition raised :: "'s result \<Rightarrow> error option" where
  "raised r = (case r of Inl (e, s) \<Rightarrow> Some e | Inr s \<Rightarrow> None)"

text \<open>The plugins in the order in which they were instantiated.\<close>

fun load_order :: "event list \<Rightarrow> string list" where
  "load_order [] = []"
| "load_order (Import n # evs) = n # load_order evs"
| "load_order (ev # evs) = load_order evs"

definition cycles :: "event list \<Rightarrow> nat" where
  "cycles evs = count_list evs Cycle"

text \<open>
  A loader that hands out the name of a plugin as its module and whose methods all
  return, and a manifest of format 0.1.0 with a name, possibly a service class and
  directives, and nothing else.
\<close>

definition stub_loader :: "string loader" where
  "stub_loader = \<lparr>import_module = Some, call_method = (\<lambda>h m. True)\<rparr>"

definition manifest_0_1_0 :: "string \<Rightarrow> string option \<Rightarrow> directive list option \<Rightarrow> manifest" where
  "manifest_0_1_0 n s ds =
     \<lparr>m_format = Some ''0.1.0'', m_name = Some n, m_human_name = None, m_service = s,
      m_requirements = None, m_load_directives = ds, m_files = None\<rparr>"

lemma final_simps [simp]: "final (Inl (e, s)) = s" "final (Inr s) = s"
  by (simp_all add: final_def)

lemma raised_simps [simp]: "raised (Inl (e, s)) = Some e" "raised (Inr s) = None"
  by (simp_all add: raised_def)

section \<open>What the directive pass leaves alone\<close>

text \<open>
  Evaluating directives only clears \<open>can-load\<close> flags, sets \<open>executed\<close> entries and
  calls hooks: \<open>dstep K\<close> relates two worlds that differ by that much, where only
  the entries under the keys in \<open>K\<close> may differ in their directives.
\<close>

fun is_invoke :: "event \<Rightarrow> bool" where
  "is_invoke (Invoke n m) = True"
| "is_invoke ev = False"

fun is_import :: "event \<Rightarrow> bool" where
  "is_import (Import n) = True"
| "is_import ev = False"

definition mark :: "directive \<Rightarrow> directive" where
  "mark d = (case d of RunAfterLoad r m ex \<Rightarrow> RunAfterLoad r m True | _ \<Rightarrow> d)"

definition drel :: "directive \<Rightarrow> directive \<Rightarrow> bool" where
  "drel d d' \<longleftrightarrow> d' = d \<or> d' = mark d"

definition erel :: "string set \<Rightarrow> string \<times> plugin_entry \<Rightarrow> string \<times> plugin_entry \<Rightarrow> bool" where
  "erel K p q \<longleftrightarrow>
     fst q = fst p \<and>
     name (snd q) = name (snd p) \<and> human_name (snd q) = human_name (snd p) \<and>
     service (snd q) = service (snd p) \<and> requirements (snd q) = requirements (snd p) \<and>
     files (snd q) = files (snd p) \<and> loaded (snd q) = loaded (snd p) \<and>
     (can_load (snd q) \<longrightarrow> can_load (snd p)) \<and>
     list_all2 drel (load_directives (snd p)) (load_directives (snd q)) \<and>
     (fst p \<notin> K \<longrightarrow> load_directives (snd q) = load_directives (snd p))"

definition dstep :: "string set \<Rightarrow> 'h world \<Rightarrow> 'h world \<Rightarrow> bool" where
  "dstep K w w' \<longleftrightarrow>
     plugins w' = plugins w \<and> services w' = services w \<and>
     plugins_plugin_data w' = plugins_plugin_data w \<and>
     list_all2 (erel K) (plugin_data w) (plugin_data w') \<and>
     (\<exists>hs. trace w' = trace w @ hs \<and> list_all is_invoke hs)"

lemma for_each_final:
  assumes "\<And>s. R s s" and "\<And>a b c. R a b \<Longrightarrow> R b c \<Longrightarrow> R a c"
    and "\<And>x t. x \<in> set xs \<Longrightarrow> R t (final (body x t))"
  shows "R s (final (for_each body xs s))"
  using assms(3)
proof (induction xs arbitrary: s)
  case Nil
  then show ?case by (simp add: assms(1))
next
  case (Cons x xs)
  have step: "R s (final (body x s))" using Cons.prems by simp
  show ?case
  proof (cases "body x s")
    case (Inl r)
    then show ?thesis using step by (cases r) simp
  next
    case (Inr t)
    have "R t (final (for_each body xs t))" using Cons.IH Cons.prems by simp
    then show ?thesis using step Inr assms(2) by auto
  qed
qed

lemma for_yielded_final:
  assumes "\<And>s. R s s" and "\<And>a b c. R a b \<Longrightarrow> R b c \<Longrightarrow> R a c"
    and "\<And>x t. x \<in> set (fst gen) \<Longrightarrow> R t (final (body x t))"
  shows "R s (final (for_yielded body gen s))"
proof -
  have "R s (final (for_each body (fst gen) s))"
    using assms by (rule for_each_final)
  then show ?thesis
    by (auto simp: for_yielded_def split: sum.splits option.splits)
qed

lemma drel_refl [simp]: "drel d d"
  by (simp add: drel_def)

lemma mark_mark [simp]: "mark (mark d) = mark d"
  by (cases d) (simp_all add: mark_def)

lemma drel_trans: "drel a b \<Longrightarrow> drel b c \<Longrightarrow> drel a c"
  by (auto simp: drel_def)

lemma list_all2_drel_refl [simp]: "list_all2 drel ds ds"
  by (simp add: list_all2_refl)

lemma list_all2_drel_trans:
  "list_all2 drel a b \<Longrightarrow> list_all2 drel b c \<Longrightarrow> list_all2 drel a c"
  by (rule list_all2_trans [of drel drel drel]) (auto intro: drel_trans)

lemma erel_refl [simp]: "erel K p p"
  by (simp add: erel_def)

lemma erel_trans: "erel K a b \<Longrightarrow> erel K b c \<Longrightarrow> erel K a c"
  by (auto simp: erel_def intro: list_all2_drel_trans)

lemma erel_mono: "erel K p q \<Longrightarrow> K \<subseteq> K' \<Longrightarrow> erel K' p q"
  by (auto simp: erel_def)

lemma dstep_refl [simp]: "dstep K w w"
  by (simp add: dstep_def list_all2_refl)

lemma dstep_trans:
  assumes "dstep K a b" and "dstep K b c"
  shows "dstep K a c"
proof -
  have l: "list_all2 (erel K) (plugin_data a) (plugin_data c)"
    using assms by (auto simp: dstep_def intro: list_all2_trans [of "erel K" "erel K" "erel K"] erel_trans)
  from assms obtain hs hs' where "trace b = trace a @ hs" "list_all is_invoke hs"
    "trace c = trace b @ hs'" "list_all is_invoke hs'"
    by (auto simp: dstep_def)
  then have t: "trace c = trace a @ (hs @ hs') \<and> list_all is_invoke (hs @ hs')" by simp
  show ?thesis using l t assms unfolding dstep_def by (intro conjI exI [of _ "hs @ hs'"]) simp_all
qed

lemma dstep_mono: "dstep K w w' \<Longrightarrow> K \<subseteq> K' \<Longrightarrow> dstep K' w w'"
  unfolding dstep_def by (auto elim!: list_all2_mono erel_mono)

lemma list_all2_map_entry:
  assumes "list_all2 R0 pd pd1"
    and "\<And>p q. R0 p q \<Longrightarrow> R p q \<and> fst q = fst p"
    and "\<And>e e1. map_of pd k = Some e \<Longrightarrow> R0 (k, e) (k, e1) \<Longrightarrow> R (k, e) (k, f e1)"
  shows "list_all2 R pd (AList.map_entry k f pd1)"
  using assms(1,3)
proof (induction rule: list_all2_induct)
  case Nil
  then show ?case by simp
next
  case (Cons p ps q qs)
  obtain kp ep where p: "p = (kp, ep)" by (cases p)
  obtain kq eq where q: "q = (kq, eq)" by (cases q)
  from Cons.hyps(1) assms(2) have kq: "kq = kp" and r: "R p q" by (auto simp: p q)
  show ?case
  proof (cases "kp = k")
    case True
    have "R (k, ep) (k, f eq)" using Cons.prems [of ep eq] Cons.hyps(1) True by (simp add: p q kq)
    moreover have "list_all2 R ps qs" using Cons.hyps(2) assms(2) by (auto elim: list_all2_mono)
    ultimately show ?thesis by (simp add: p q kq True)
  next
    case False
    have "list_all2 R ps (AList.map_entry k f qs)"
      using Cons.IH Cons.prems False by (simp add: p)
    then show ?thesis using r False by (simp add: p q kq)
  qed
qed

lemma dstep_clear_can_load: "dstep {} w (clear_can_load k w)"
proof -
  have "list_all2 (erel {}) (plugin_data w)
          (AList.map_entry k (\<lambda>e. e\<lparr>can_load := False\<rparr>) (plugin_data w))"
    by (rule list_all2_map_entry [where ?R0.0 = "(=)"])
       (auto simp: list_all2_refl erel_def)
  then show ?thesis by (simp add: dstep_def clear_can_load_def)
qed

lemma dstep_load_before: "dstep {} w (final (directive_load_before m k w))"
  unfolding directive_load_before_def
  by (rule for_yielded_final)
     (auto intro: dstep_trans dstep_clear_can_load split: option.splits)

lemma dstep_load_after: "dstep {} w (final (directive_load_after m k w))"
  unfolding directive_load_after_def
  by (rule for_yielded_final)
     (auto intro: dstep_trans dstep_clear_can_load split: option.splits)

lemma dstep_load_deny: "dstep {} w (final (directive_load_deny m k w))"
  unfolding directive_load_deny_def
  by (rule for_yielded_final)
     (auto intro: dstep_trans split: option.splits)

lemma dstep_invoke: "dstep {} w (w\<lparr>trace := trace w @ [Invoke n m]\<rparr>)"
  by (simp add: dstep_def list_all2_refl)

lemma dstep_run_after_load:
  "dstep {} w (snd (final (directive_run_after_load L r m ex k w))) \<and>
   drel (RunAfterLoad r m ex) (fst (final (directive_run_after_load L r m ex k w)))"
  unfolding directive_run_after_load_def Let_def
  by (auto simp: dstep_invoke drel_def mark_def split: sum.splits bool.splits option.splits)

lemma dstep_load_directive:
  "dstep {} w (snd (final (load_directive L d k w))) \<and> drel d (fst (final (load_directive L d k w)))"
proof (cases d)
  case (LoadBefore r)
  then show ?thesis using dstep_load_before [of w r k]
    by (auto simp: unchanged_def split: sum.splits)
next
  case (LoadAfter r)
  then show ?thesis using dstep_load_after [of w r k]
    by (auto simp: unchanged_def split: sum.splits)
next
  case (LoadDeny r)
  then show ?thesis using dstep_load_deny [of w r k]
    by (auto simp: unchanged_def split: sum.splits)
next
  case (RunAfterLoad r m ex)
  then show ?thesis using dstep_run_after_load by simp
next
  case (OtherDirective t)
  then show ?thesis by simp
qed

lemma dstep_apply_directives:
  "dstep {} w (snd (final (apply_directives L k ds w))) \<and>
   list_all2 drel ds (fst (final (apply_directives L k ds w)))"
proof (induction ds arbitrary: w)
  case Nil
  then show ?case by simp
next
  case (Cons d ds)
  note h = dstep_load_directive [of w L d k]
  show ?case
  proof (cases "load_directive L d k w")
    case (Inl r)
    then show ?thesis using h by (cases r) auto
  next
    case (Inr r)
    obtain d' w' where r: "r = (d', w')" by (cases r)
    note ih = Cons.IH [of w']
    show ?thesis
    proof (cases "apply_directives L k ds w'")
      case (Inl q)
      then show ?thesis using h ih Inr r by (cases q) (auto intro: dstep_trans)
    next
      case (Inr q)
      then show ?thesis using h ih \<open>load_directive L d k w = Inr r\<close> r
        by (cases q) (auto intro: dstep_trans)
    qed
  qed
qed


lemma dstep_store_directives:
  assumes "dstep {} w w1"
    and "list_all2 drel (load_directives (entry_of (plugin_data w) k)) ds"
  shows "dstep {k} w (store_directives k ds w1)"
proof -
  have "list_all2 (erel {k}) (plugin_data w)
          (AList.map_entry k (\<lambda>e. e\<lparr>load_directives := ds\<rparr>) (plugin_data w1))"
  proof (rule list_all2_map_entry [where ?R0.0 = "erel {}"])
    show "list_all2 (erel {}) (plugin_data w) (plugin_data w1)"
      using assms(1) by (simp add: dstep_def)
  next
    fix p q assume "erel {} p q"
    then show "erel {k} p q \<and> fst q = fst p" by (auto simp: erel_def)
  next
    fix e e1 assume "map_of (plugin_data w) k = Some e" "erel {} (k, e) (k, e1)"
    then show "erel {k} (k, e) (k, e1\<lparr>load_directives := ds\<rparr>)"
      using assms(2) by (auto simp: erel_def entry_of_def)
  qed
  then show ?thesis using assms(1)
    by (auto simp: dstep_def store_directives_def)
qed

lemma dstep_apply_entry_directives: "dstep {k} w (final (apply_entry_directives L k w))"
proof -
  note h = dstep_apply_directives [of w L k "load_directives (entry_of (plugin_data w) k)"]
  show ?thesis
    unfolding apply_entry_directives_def
    using h by (auto split: sum.splits intro: dstep_store_directives)
qed

lemma dstep_apply_load_directives: "dstep UNIV w (final (apply_load_directives L w))"
  unfolding apply_load_directives_def
  by (rule for_each_final)
     (auto intro: dstep_trans dstep_mono [OF dstep_apply_entry_directives])

section \<open>What the load pass leaves alone\<close>

definition lrel :: "string \<times> plugin_entry \<Rightarrow> string \<times> plugin_entry \<Rightarrow> bool" where
  "lrel p q \<longleftrightarrow>
     fst q = fst p \<and> (snd q = snd p \<or> (\<not> loaded (snd p) \<and> snd q = (snd p)\<lparr>loaded := True\<rparr>))"

definition lstep :: "'h world \<Rightarrow> 'h world \<Rightarrow> bool" where
  "lstep w w' \<longleftrightarrow>
     list_all2 lrel (plugin_data w) (plugin_data w') \<and>
     (\<exists>is. trace w' = trace w @ is \<and> list_all is_import is)"

lemma lrel_refl [simp]: "lrel p p"
  by (simp add: lrel_def)

lemma lrel_trans: "lrel a b \<Longrightarrow> lrel b c \<Longrightarrow> lrel a c"
  by (auto simp: lrel_def)

lemma lstep_refl [simp]: "lstep w w"
  by (simp add: lstep_def list_all2_refl)

lemma lstep_trans:
  assumes "lstep a b" and "lstep b c"
  shows "lstep a c"
proof -
  have l: "list_all2 lrel (plugin_data a) (plugin_data c)"
    using assms by (auto simp: lstep_def intro: list_all2_trans [of lrel lrel lrel] lrel_trans)
  from assms obtain hs hs' where "trace b = trace a @ hs" "list_all is_import hs"
    "trace c = trace b @ hs'" "list_all is_import hs'"
    by (auto simp: lstep_def)
  then have t: "trace c = trace a @ (hs @ hs') \<and> list_all is_import (hs @ hs')" by simp
  show ?thesis using l t unfolding lstep_def by blast
qed

lemma lstep_load_plugin: "lstep w (final (load_plugin L k w))"
proof -
  have "list_all2 lrel (plugin_data w)
          (AList.map_entry k (\<lambda>e. e\<lparr>loaded := True\<rparr>) (plugin_data w))"
    by (rule list_all2_map_entry [where ?R0.0 = "(=)"])
       (auto simp: list_all2_refl lrel_def)
  then show ?thesis
    using load_plugin_shape [where L = L and k = k and w = w]
    by (cases "load_plugin L k w") (auto simp: lstep_def list_all2_refl)
qed

definition lstep3 :: "'h world \<times> bool \<times> bool \<Rightarrow> 'h world \<times> bool \<times> bool \<Rightarrow> bool" where
  "lstep3 s s' \<longleftrightarrow> lstep (fst s) (fst s')"

lemma lstep_load_step: "lstep3 s (final (load_step L k s))"
  using lstep_load_plugin [of "fst s" L k]
  by (cases s) (auto simp: load_step_def lstep3_def split: sum.splits)

lemma lstep_load_loop: "lstep w (fst (final (load_loop L w)))"
proof -
  have "lstep3 (w, False, True) (final (load_loop L w))"
    unfolding load_loop_def
    by (rule for_each_final) (auto simp: lstep3_def lstep_load_step [unfolded lstep3_def] intro: lstep_trans)
  then show ?thesis by (simp add: lstep3_def)
qed

section \<open>What a run leaves alone\<close>

definition rrel :: "string \<times> plugin_entry \<Rightarrow> string \<times> plugin_entry \<Rightarrow> bool" where
  "rrel p q \<longleftrightarrow>
     fst q = fst p \<and>
     name (snd q) = name (snd p) \<and> human_name (snd q) = human_name (snd p) \<and>
     service (snd q) = service (snd p) \<and> requirements (snd q) = requirements (snd p) \<and>
     files (snd q) = files (snd p) \<and> (loaded (snd p) \<longrightarrow> loaded (snd q)) \<and>
     list_all2 drel (load_directives (snd p)) (load_directives (snd q))"

definition rstep :: "'h world \<Rightarrow> 'h world \<Rightarrow> bool" where
  "rstep w w' \<longleftrightarrow>
     list_all2 rrel (plugin_data w) (plugin_data w') \<and> (\<exists>evs. trace w' = trace w @ evs)"

lemma rrel_refl [simp]: "rrel p p"
  by (simp add: rrel_def)

lemma rrel_trans: "rrel a b \<Longrightarrow> rrel b c \<Longrightarrow> rrel a c"
  by (auto simp: rrel_def intro: list_all2_drel_trans)

lemma rstep_refl [simp]: "rstep w w"
  by (simp add: rstep_def list_all2_refl)

lemma rstep_trans: "rstep a b \<Longrightarrow> rstep b c \<Longrightarrow> rstep a c"
  unfolding rstep_def
  by (auto intro: list_all2_trans [of rrel rrel rrel] rrel_trans)

lemma dstep_rstep: "dstep K w w' \<Longrightarrow> rstep w w'"
  unfolding dstep_def rstep_def
  by (auto elim!: list_all2_mono simp: erel_def rrel_def)

lemma lstep_rstep: "lstep w w' \<Longrightarrow> rstep w w'"
  unfolding lstep_def rstep_def
  by (auto elim!: list_all2_mono simp: lrel_def rrel_def)

lemma rstep_reset: "rstep w (reset_can_load (w\<lparr>trace := trace w @ [Cycle]\<rparr>))"
  by (auto simp: rstep_def reset_can_load_def list_all2_map2 rrel_def split_def intro!: list_all2_refl)

lemma rstep_cycle: "rstep w (fst (final (cycle L w)))"
proof -
  let ?w1 = "reset_can_load (w\<lparr>trace := trace w @ [Cycle]\<rparr>)"
  have 1: "rstep w ?w1" by (rule rstep_reset)
  have 2: "rstep ?w1 (final (apply_load_directives L ?w1))"
    by (rule dstep_rstep [OF dstep_apply_load_directives])
  show ?thesis
  proof (cases "apply_load_directives L ?w1")
    case (Inl r)
    then show ?thesis using 1 2 by (cases r) (auto simp: cycle_def intro: rstep_trans)
  next
    case (Inr v)
    have "rstep v (fst (final (load_loop L v)))" by (rule lstep_rstep [OF lstep_load_loop])
    then show ?thesis using 1 2 Inr by (auto simp: cycle_def intro: rstep_trans)
  qed
qed



section \<open>Induction over the cycles of a run\<close>

lemma for_each_Inl:
  assumes "for_each body xs s = Inl (e, s')" and "P s"
    and "\<And>x t t'. x \<in> set xs \<Longrightarrow> P t \<Longrightarrow> body x t = Inr t' \<Longrightarrow> P t'"
  obtains x t where "x \<in> set xs" and "P t" and "body x t = Inl (e, s')"
  using assms
proof (induction xs arbitrary: s thesis)
  case Nil
  then show ?case by simp
next
  case (Cons x xs)
  show ?case
  proof (cases "body x s")
    case (Inl r)
    then have "body x s = Inl (e, s')" using Cons.prems(2) by simp
    then show ?thesis using Cons.prems(1) [of x s] Cons.prems(3) by simp
  next
    case (Inr t)
    then have r: "for_each body xs t = Inl (e, s')" using Cons.prems(2) by simp
    have "P t" using Cons.prems(3,4) Inr by auto
    show ?thesis
    proof (rule Cons.IH [OF _ r \<open>P t\<close>])
      fix y u assume "y \<in> set xs" "P u" "body y u = Inl (e, s')"
      then show thesis using Cons.prems(1) [of y u] by simp
    next
      fix y u u' assume "y \<in> set xs" "P u" "body y u = Inr u'"
      then show "P u'" using Cons.prems(4) [of y u u'] by simp
    qed
  qed
qed

lemma load_plugins_cases:
  obtains (failed) e w' a b where "cycle L w = Inl (e, w', a, b)" "load_plugins L w = Inl (e, w')"
  | (finished) w' a where "cycle L w = Inr (w', a, True)" "load_plugins L w = Inr w'"
  | (stuck) w' where "cycle L w = Inr (w', False, False)"
      "load_plugins L w = Inl (DirectiveDeadlock, w')"
  | (again) w' where "cycle L w = Inr (w', True, False)" "load_plugins L w = load_plugins L w'"
proof (cases "cycle L w")
  case (Inl r)
  obtain e w' a b where r: "r = (e, w', a, b)" by (cases r)
  have "load_plugins L w = Inl (e, w')"
    by (subst load_plugins.simps) (simp add: Inl r)
  then show ?thesis using failed Inl r by simp
next
  case (Inr r)
  obtain w' a b where r: "r = (w', a, b)" by (cases r)
  show ?thesis
  proof (cases b)
    case True
    have "load_plugins L w = Inr w'"
      by (subst load_plugins.simps) (simp add: Inr r True)
    then show ?thesis using finished Inr r True by simp
  next
    case False
    show ?thesis
    proof (cases a)
      case True
      have "load_plugins L w = load_plugins L w'"
        by (subst load_plugins.simps) (simp add: Inr r True False)
      then show ?thesis using again Inr r True False by simp
    next
      case a: False
      have "load_plugins L w = Inl (DirectiveDeadlock, w')"
        by (subst load_plugins.simps) (simp add: Inr r a False)
      then show ?thesis using stuck Inr r a False by simp
    qed
  qed
qed

lemma load_plugins_last:
  assumes "I w" and "\<And>v v' a b. I v \<Longrightarrow> cycle L v = Inr (v', a, b) \<Longrightarrow> I v'"
  shows "\<exists>v. I v \<and>
     (case load_plugins L w of
        Inr w' \<Rightarrow> (\<exists>a. cycle L v = Inr (w', a, True))
      | Inl (e, w') \<Rightarrow> (\<exists>a b. cycle L v = Inl (e, w', a, b)) \<or>
                      (e = DirectiveDeadlock \<and> cycle L v = Inr (w', False, False)))"
  using assms
proof (induction L w rule: load_plugins.induct)
  case (1 L w)
  show ?case
  proof (cases L w rule: load_plugins_cases)
    case (failed e w' a b)
    then show ?thesis using "1.prems"(1) by (intro exI [of _ w]) auto
  next
    case (finished w' a)
    then show ?thesis using "1.prems"(1) by (intro exI [of _ w]) auto
  next
    case (stuck w')
    then show ?thesis using "1.prems"(1) by (intro exI [of _ w]) auto
  next
    case (again w')
    have "I w'" using "1.prems" again(1) by blast
    from "1.IH" [OF again(1) refl refl _ _ this "1.prems"(2)]
    show ?thesis using again(2) by simp
  qed
qed

lemma load_plugins_Inr:
  assumes "load_plugins L w = Inr w'" and "I w"
    and "\<And>v v' a b. I v \<Longrightarrow> cycle L v = Inr (v', a, b) \<Longrightarrow> I v'"
  obtains v a where "I v" and "cycle L v = Inr (w', a, True)"
proof -
  note h = load_plugins_last [where I = I and L = L, OF assms(2)]
  have "\<exists>v. I v \<and> (\<exists>a. cycle L v = Inr (w', a, True))"
    using h [OF assms(3)] assms(1) by simp
  then show ?thesis using that by blast
qed

lemma load_plugins_Inl:
  assumes "load_plugins L w = Inl (e, w')" and "I w"
    and "\<And>v v' a b. I v \<Longrightarrow> cycle L v = Inr (v', a, b) \<Longrightarrow> I v'"
  obtains (failed) v a b where "I v" and "cycle L v = Inl (e, w', a, b)"
  | (stuck) v where "I v" and "e = DirectiveDeadlock" and "cycle L v = Inr (w', False, False)"
proof -
  note h = load_plugins_last [where I = I and L = L, OF assms(2)]
  have "\<exists>v. I v \<and> ((\<exists>a b. cycle L v = Inl (e, w', a, b)) \<or>
                      (e = DirectiveDeadlock \<and> cycle L v = Inr (w', False, False)))"
    using h [OF assms(3)] assms(1) by simp
  then show ?thesis using failed stuck by blast
qed

section \<open>The trace and the flags agree\<close>

definition reg_ok :: "(string \<times> plugin_entry) list \<Rightarrow> bool" where
  "reg_ok pd \<longleftrightarrow> distinct (map fst pd) \<and> (\<forall>p \<in> set pd. name (snd p) = fst p)"

definition sync :: "'h world \<Rightarrow> bool" where
  "sync w \<longleftrightarrow>
     reg_ok (plugin_data w) \<and> distinct (load_order (trace w)) \<and>
     set (load_order (trace w)) \<subseteq> set (keys w) \<and>
     (\<forall>p \<in> set (plugin_data w). loaded (snd p) \<longleftrightarrow> fst p \<in> set (load_order (trace w)))"

text \<open>
  What is left when an import, or a line of \<open>_load_plugin\<close> after it, raises: the
  last import of the trace has no flag yet.
\<close>

definition sync_weak :: "'h world \<Rightarrow> bool" where
  "sync_weak w \<longleftrightarrow>
     reg_ok (plugin_data w) \<and> distinct (load_order (trace w)) \<and>
     set (load_order (trace w)) \<subseteq> set (keys w) \<and>
     (\<forall>p \<in> set (plugin_data w).
        (loaded (snd p) \<longrightarrow> fst p \<in> set (load_order (trace w))) \<and>
        (fst p \<in> set (butlast (load_order (trace w))) \<longrightarrow> loaded (snd p)))"

lemma sync_weak: "sync w \<Longrightarrow> sync_weak w"
  by (auto simp: sync_def sync_weak_def dest: in_set_butlastD)

lemma load_order_append [simp]: "load_order (xs @ ys) = load_order xs @ load_order ys"
  by (induction xs rule: load_order.induct) simp_all

lemma load_order_invokes: "list_all is_invoke hs \<Longrightarrow> load_order hs = []"
  by (induction hs rule: load_order.induct) simp_all

lemma cycles_append [simp]: "cycles (xs @ ys) = cycles xs + cycles ys"
  by (simp add: cycles_def)

lemma cycles_invokes: "list_all is_invoke hs \<Longrightarrow> cycles hs = 0"
  by (induction hs rule: load_order.induct) (simp_all add: cycles_def)


lemma list_all2_keys:
  "list_all2 R pd pd' \<Longrightarrow> (\<And>p q. R p q \<Longrightarrow> fst q = fst p) \<Longrightarrow> map fst pd' = map fst pd"
  by (induction rule: list_all2_induct) auto

lemma list_all2_set2:
  "list_all2 R pd pd' \<Longrightarrow> q \<in> set pd' \<Longrightarrow> \<exists>p \<in> set pd. R p q"
  by (induction rule: list_all2_induct) auto

lemma list_all2_set1:
  "list_all2 R pd pd' \<Longrightarrow> p \<in> set pd \<Longrightarrow> \<exists>q \<in> set pd'. R p q"
  by (induction rule: list_all2_induct) auto

lemma list_all2_map_of:
  assumes "list_all2 R pd pd'" and "\<And>p q. R p q \<Longrightarrow> fst q = fst p" and "map_of pd k = Some e"
  shows "\<exists>e'. map_of pd' k = Some e' \<and> R (k, e) (k, e')"
  using assms(1,3)
proof (induction rule: list_all2_induct)
  case Nil
  then show ?case by simp
next
  case (Cons p ps q qs)
  have "fst q = fst p" using Cons.hyps(1) assms(2) by simp
  then show ?case using Cons by (cases p, cases q) (auto split: if_splits)
qed

lemma list_all2_map_of_rev:
  assumes "list_all2 R pd pd'" and "\<And>p q. R p q \<Longrightarrow> fst q = fst p" and "map_of pd' k = Some e'"
  shows "\<exists>e. map_of pd k = Some e \<and> R (k, e) (k, e')"
  using assms(1,3)
proof (induction rule: list_all2_induct)
  case Nil
  then show ?case by simp
next
  case (Cons p ps q qs)
  have "fst q = fst p" using Cons.hyps(1) assms(2) by simp
  then show ?case using Cons by (cases p, cases q) (auto split: if_splits)
qed

lemma rstep_keys: "rstep w w' \<Longrightarrow> keys w' = keys w"
  unfolding rstep_def keys_def by (auto elim!: list_all2_keys simp: rrel_def)

lemma rstep_reg_ok:
  assumes "rstep w w'" and "reg_ok (plugin_data w)"
  shows "reg_ok (plugin_data w')"
proof -
  have k: "map fst (plugin_data w') = map fst (plugin_data w)"
    using rstep_keys [OF assms(1)] by (simp add: keys_def)
  have "name (snd q) = fst q" if "q \<in> set (plugin_data w')" for q
  proof -
    from assms(1) that obtain p where "p \<in> set (plugin_data w)" "rrel p q"
      unfolding rstep_def by (blast dest: list_all2_set2)
    then show ?thesis using assms(2) by (auto simp: rrel_def reg_ok_def)
  qed
  then show ?thesis using assms(2) k by (simp add: reg_ok_def)
qed

lemma reg_ok_map_of: "reg_ok pd \<Longrightarrow> (k, e) \<in> set pd \<longleftrightarrow> map_of pd k = Some e"
  by (auto simp: reg_ok_def dest: map_of_SomeD)

lemma dstep_sync:
  assumes "dstep K w w'" and "sync w"
  shows "sync w'"
proof -
  have r: "reg_ok (plugin_data w')"
    using rstep_reg_ok [OF dstep_rstep [OF assms(1)]] assms(2) by (simp add: sync_def)
  from assms(1) obtain hs where hs: "trace w' = trace w @ hs" "list_all is_invoke hs"
    by (auto simp: dstep_def)
  then have t: "load_order (trace w') = load_order (trace w)"
    by (simp add: load_order_invokes)
  have "loaded (snd q) \<longleftrightarrow> fst q \<in> set (load_order (trace w))" if "q \<in> set (plugin_data w')" for q
  proof -
    from assms(1) that obtain p where "p \<in> set (plugin_data w)" "erel K p q"
      unfolding dstep_def by (blast dest: list_all2_set2)
    then show ?thesis using assms(2) by (auto simp: erel_def sync_def)
  qed
  then show ?thesis
    using r t assms(2) rstep_keys [OF dstep_rstep [OF assms(1)]] by (simp add: sync_def)
qed

lemma reset_sync: "sync w \<Longrightarrow> sync (reset_can_load (w\<lparr>trace := trace w @ [Cycle]\<rparr>))"
  by (auto simp: sync_def reset_can_load_def reg_ok_def keys_def comp_def split_def)

lemma set_map_entry:
  "distinct (map fst pd) \<Longrightarrow>
   set (AList.map_entry k f pd) = {p. p \<in> set pd \<and> fst p \<noteq> k} \<union> {(k, f e) | e. (k, e) \<in> set pd}"
  by (induction pd) (auto simp: rev_image_eqI)

lemma load_plugin_sync:
  assumes "sync w" and "k \<in> set (keys w)" and "\<not> loaded (entry_of (plugin_data w) k)"
  shows "case load_plugin L k w of
           Inr w' \<Rightarrow> sync w' \<and> trace w' = trace w @ [Import k]
         | Inl (e, w') \<Rightarrow> sync_weak w' \<and> trace w' = trace w @ [Import k] \<and>
                         plugin_data w' = plugin_data w"
proof -
  from assms(2) obtain e where e: "map_of (plugin_data w) k = Some e"
    by (auto simp: keys_def dest!: weak_map_of_SomeI)
  have r: "reg_ok (plugin_data w)" using assms(1) by (simp add: sync_def)
  have m: "(k, e) \<in> set (plugin_data w)" using e by (rule map_of_SomeD)
  then have n: "name (entry_of (plugin_data w) k) = k"
    using r e by (auto simp: reg_ok_def entry_of_def)
  have "\<not> loaded e" using assms(3) e by (simp add: entry_of_def)
  then have notin: "k \<notin> set (load_order (trace w))" using assms(1) m by (auto simp: sync_def)
  have d: "distinct (map fst (plugin_data w))" using r by (simp add: reg_ok_def)
  have u: "(k, e') \<in> set (plugin_data w) \<Longrightarrow> e' = e" for e'
    using d m by (meson eq_key_imp_eq_value)
  note shape = load_plugin_shape [where L = L and k = k and w = w, unfolded n]
  show ?thesis
  proof (cases "load_plugin L k w")
    case (Inl q)
    obtain err w' where q: "q = (err, w')" by (cases q)
    have w': "plugin_data w' = plugin_data w" "trace w' = trace w @ [Import k]"
      using shape Inl q by simp_all
    have "sync_weak w'"
      using assms(1,2) notin w' by (auto simp: sync_weak_def sync_def keys_def)
    then show ?thesis using w' Inl q by simp
  next
    case (Inr w')
    let ?pd = "AList.map_entry k (\<lambda>e. e\<lparr>loaded := True\<rparr>) (plugin_data w)"
    have w': "plugin_data w' = ?pd" "trace w' = trace w @ [Import k]"
      using shape Inr by simp_all
    have "reg_ok ?pd"
      using r d by (auto simp: reg_ok_def map_fst_map_entry set_map_entry)
    moreover have "\<forall>p \<in> set ?pd. loaded (snd p) \<longleftrightarrow> fst p \<in> set (load_order (trace w) @ [k])"
      using assms(1) d u by (auto simp: set_map_entry sync_def)
    ultimately have "sync w'"
      using assms(1,2) notin w' by (simp add: sync_def keys_def map_fst_map_entry)
    then show ?thesis using w' Inr by simp
  qed
qed

lemma load_step_sync:
  assumes "sync w" and "k \<in> set (keys w)"
  shows "case load_step L k (w, a, b) of
           Inr (w', a', b') \<Rightarrow> sync w' \<and> keys w' = keys w
         | Inl (e, w', a', b') \<Rightarrow> sync_weak w'"
proof (cases "\<not> loaded (entry_of (plugin_data w) k) \<and> can_load (entry_of (plugin_data w) k)")
  case True
  with load_plugin_sync [OF assms, of L] show ?thesis
    by (auto simp: load_step_def split: sum.splits dest: load_plugin_keys)
next
  case False
  then show ?thesis using assms(1) by (auto simp: load_step_def)
qed

definition sync3 :: "string list \<Rightarrow> 'h world \<times> bool \<times> bool \<Rightarrow> bool" where
  "sync3 ks s \<longleftrightarrow> sync (fst s) \<and> keys (fst s) = ks"

lemma load_step_sync3:
  assumes "x \<in> set ks" and "sync3 ks t" and "load_step L x t = Inr t'"
  shows "sync3 ks t'"
proof -
  obtain v a b where t: "t = (v, a, b)" by (cases t)
  obtain v' a' b' where t': "t' = (v', a', b')" by (cases t')
  have "x \<in> set (keys v)" "sync v" using assms(1,2) by (simp_all add: t sync3_def)
  from load_step_sync [OF this(2,1), of L a b] assms(2,3) show ?thesis
    by (simp add: t t' sync3_def)
qed

lemma load_loop_sync:
  assumes "sync w"
  shows "case load_loop L w of
           Inr (w', a, b) \<Rightarrow> sync w'
         | Inl (e, w', a, b) \<Rightarrow> sync_weak w'"
proof -
  have init: "sync3 (keys w) (w, False, True)" using assms by (simp add: sync3_def)
  show ?thesis
  proof (cases "load_loop L w")
    case (Inr r)
    have "sync3 (keys w) r"
      using Inr [unfolded load_loop_def] init
      by (rule for_each_Inr) (rule load_step_sync3, simp_all add: keys_def)
    then show ?thesis using Inr by (cases r) (simp add: sync3_def)
  next
    case (Inl r)
    obtain e w' a b where r: "r = (e, w', a, b)" by (cases r)
    from Inl [unfolded load_loop_def r] init obtain x t
      where x: "x \<in> set (map fst (plugin_data w))" and t: "sync3 (keys w) t"
        and f: "load_step L x t = Inl (e, w', a, b)"
      by (rule for_each_Inl) (rule load_step_sync3, simp_all add: keys_def)
    obtain v c d where tv: "t = (v, c, d)" by (cases t)
    have "x \<in> set (keys v)" "sync v" using x t by (simp_all add: tv sync3_def keys_def)
    from load_step_sync [OF this(2,1), of L c d] f show ?thesis
      by (simp add: Inl r tv)
  qed
qed

lemma cycle_sync:
  assumes "sync w"
  shows "case cycle L w of
           Inr (w', a, b) \<Rightarrow> sync w'
         | Inl (e, w', a, b) \<Rightarrow> sync_weak w'"
proof -
  let ?w1 = "reset_can_load (w\<lparr>trace := trace w @ [Cycle]\<rparr>)"
  have 1: "sync ?w1" using assms by (rule reset_sync)
  have 2: "sync (final (apply_load_directives L ?w1))"
    by (rule dstep_sync [OF dstep_apply_load_directives 1])
  show ?thesis
  proof (cases "apply_load_directives L ?w1")
    case (Inl r)
    then show ?thesis using 2 by (cases r) (auto simp: cycle_def dest: sync_weak)
  next
    case (Inr v)
    then show ?thesis using 2 load_loop_sync [of v L] by (simp add: cycle_def)
  qed
qed

lemma cycle_sync_Inr: "sync v \<Longrightarrow> cycle L v = Inr (v', a, b) \<Longrightarrow> sync v'"
  using cycle_sync [of v L] by simp


section \<open>The registry that \<open>init\<close> builds\<close>

definition fresh :: "(string \<times> plugin_entry) list \<Rightarrow> bool" where
  "fresh pd \<longleftrightarrow> reg_ok pd \<and> (\<forall>p \<in> set pd. \<not> loaded (snd p))"

lemma set_update: "p \<in> set (AList.update k v pd) \<Longrightarrow> p = (k, v) \<or> p \<in> set pd"
  by (induction pd) (auto split: if_splits)

lemma fresh_update:
  "fresh pd \<Longrightarrow> name e = k \<Longrightarrow> \<not> loaded e \<Longrightarrow> fresh (AList.update k e pd)"
  unfolding fresh_def reg_ok_def
  by (auto simp: distinct_update dest!: set_update)

lemma register_fresh: "register ms pd = Inr pd' \<Longrightarrow> fresh pd \<Longrightarrow> fresh pd'"
proof (induction ms arbitrary: pd)
  case Nil
  then show ?case by simp
next
  case (Cons m ms)
  from Cons.prems(1) obtain n h r d f
    where m: "m_name m = Some n" "m_human_name m = Some h" "m_requirements m = Some r"
      "m_load_directives m = Some d" "m_files m = Some f"
    by (auto split: option.splits)
  let ?e = "\<lparr>name = n, human_name = h, service = m_service m, requirements = r,
             load_directives = d, files = f, loaded = False, can_load = False\<rparr>"
  have "register ms (AList.update n ?e pd) = Inr pd'"
    using Cons.prems(1) by (simp add: m)
  moreover have "fresh (AList.update n ?e pd)"
    using Cons.prems(2) by (intro fresh_update) simp_all
  ultimately show ?case by (rule Cons.IH)
qed

lemma load_plugin_manifests_fresh:
  assumes "load_plugin_manifests found [] = Inr pd"
  shows "fresh pd"
proof -
  from assms obtain ms where "register ms [] = Inr pd"
    by (auto simp: load_plugin_manifests_def split: sum.splits)
  moreover have "fresh []" by (simp add: fresh_def reg_ok_def)
  ultimately show ?thesis by (rule register_fresh)
qed

lemma fresh_sync: "fresh pd \<Longrightarrow> sync (start pd)"
  by (simp add: fresh_def sync_def start_def keys_def)


section \<open>Every directive is evaluated\<close>

lemma for_each_reaches:
  assumes "for_each body xs s = Inr s'" and "x \<in> set xs"
    and "\<And>s. R s s" and "\<And>a b c. R a b \<Longrightarrow> R b c \<Longrightarrow> R a c"
    and "\<And>y t. R t (final (body y t))"
  shows "\<exists>t t'. R s t \<and> body x t = Inr t' \<and> R t' s'"
  using assms(1,2)
proof (induction xs arbitrary: s)
  case Nil
  then show ?case by simp
next
  case (Cons y ys)
  from Cons.prems(1) obtain u where u: "body y s = Inr u" and r: "for_each body ys u = Inr s'"
    by (auto split: sum.splits)
  have su: "R s u" using assms(5) [of s y] u by simp
  show ?case
  proof (cases "x = y")
    case True
    have "R u s'" using for_each_final [of R ys body u, OF assms(3,4,5)] r by simp
    then show ?thesis using u True assms(3) by blast
  next
    case False
    then have "x \<in> set ys" using Cons.prems(2) by simp
    from Cons.IH [OF r this] obtain t t' where "R u t" "body x t = Inr t'" "R t' s'" by blast
    then show ?thesis using su assms(4) by blast
  qed
qed

lemma for_yielded_reaches:
  assumes "for_yielded body gen s = Inr s'" and "x \<in> set (fst gen)"
    and "\<And>s. R s s" and "\<And>a b c. R a b \<Longrightarrow> R b c \<Longrightarrow> R a c"
    and "\<And>y t. R t (final (body y t))"
  shows "\<exists>t t'. R s t \<and> body x t = Inr t' \<and> R t' s'"
proof -
  from assms(1) have "for_each body (fst gen) s = Inr s'"
    by (auto simp: for_yielded_def split: sum.splits option.splits)
  then show ?thesis using assms(2-5) by (rule for_each_reaches)
qed

lemma apply_directives_reaches:
  assumes "apply_directives L k ds w = Inr (ds', w')" and "d \<in> set ds"
  shows "\<exists>t d' t'. dstep {} w t \<and> load_directive L d k t = Inr (d', t') \<and> dstep {} t' w'"
  using assms
proof (induction ds arbitrary: w ds')
  case Nil
  then show ?case by simp
next
  case (Cons c cs)
  from Cons.prems(1) obtain c' u cs' where u: "load_directive L c k w = Inr (c', u)"
    and r: "apply_directives L k cs u = Inr (cs', w')"
    by (auto split: sum.splits prod.splits)
  have wu: "dstep {} w u" using dstep_load_directive [of w L c k] u by simp
  show ?case
  proof (cases "d = c")
    case True
    have "dstep {} u w'" using dstep_apply_directives [of u L k cs] r by simp
    then show ?thesis using u True dstep_refl by blast
  next
    case False
    then have "d \<in> set cs" using Cons.prems(2) by simp
    from Cons.IH [OF r this] obtain t d' t'
      where "dstep {} u t" "load_directive L d k t = Inr (d', t')" "dstep {} t' w'" by blast
    then show ?thesis using wu dstep_trans by blast
  qed
qed

lemma dstep_map_of:
  assumes "dstep K w w'" and "map_of (plugin_data w) k = Some e"
  shows "\<exists>e'. map_of (plugin_data w') k = Some e' \<and> erel K (k, e) (k, e')"
  using assms unfolding dstep_def
  by (intro list_all2_map_of [where R = "erel K"]) (auto simp: erel_def)

lemma dstep_map_of_rev:
  assumes "dstep K w w'" and "map_of (plugin_data w') k = Some e'"
  shows "\<exists>e. map_of (plugin_data w) k = Some e \<and> erel K (k, e) (k, e')"
  using assms unfolding dstep_def
  by (intro list_all2_map_of_rev [where R = "erel K"]) (auto simp: erel_def)

lemma dstep_keys: "dstep K w w' \<Longrightarrow> keys w' = keys w"
  by (rule rstep_keys [OF dstep_rstep])

lemma dstep_store_same:
  assumes "apply_directives L k (load_directives (entry_of (plugin_data w) k)) w = Inr (ds', w1)"
  shows "dstep {k} w1 (store_directives k ds' w1)"
proof -
  note h = dstep_apply_directives [of w L k "load_directives (entry_of (plugin_data w) k)"]
  have l: "list_all2 drel (load_directives (entry_of (plugin_data w) k)) ds'"
    using h assms by simp
  have d: "dstep {} w w1" using h assms by simp
  have "list_all2 (erel {k}) (plugin_data w1)
          (AList.map_entry k (\<lambda>e. e\<lparr>load_directives := ds'\<rparr>) (plugin_data w1))"
  proof (rule list_all2_map_entry [where ?R0.0 = "(=)"])
    show "list_all2 (=) (plugin_data w1) (plugin_data w1)" by (simp add: list_all2_refl)
  next
    fix p q :: "string \<times> plugin_entry" assume "p = q"
    then show "erel {k} p q \<and> fst q = fst p" by simp
  next
    fix e e1 assume e: "map_of (plugin_data w1) k = Some e" and "(k, e) = (k, e1)"
    then have e1: "e1 = e" by simp
    from dstep_map_of_rev [OF d e] obtain e0
      where "map_of (plugin_data w) k = Some e0" "erel {} (k, e0) (k, e)" by blast
    then have "load_directives e = load_directives (entry_of (plugin_data w) k)"
      by (simp add: erel_def entry_of_def)
    then show "erel {k} (k, e) (k, e1\<lparr>load_directives := ds'\<rparr>)"
      using l by (simp add: erel_def e1)
  qed
  then show ?thesis by (simp add: dstep_def store_directives_def)
qed

lemma apply_entry_directives_reaches:
  assumes "apply_entry_directives L k w = Inr w'"
    and "d \<in> set (load_directives (entry_of (plugin_data w) k))"
  shows "\<exists>t d' t'. dstep {} w t \<and> load_directive L d k t = Inr (d', t') \<and> dstep {k} t' w'"
proof -
  from assms(1) obtain ds' w1
    where a: "apply_directives L k (load_directives (entry_of (plugin_data w) k)) w = Inr (ds', w1)"
      and w': "w' = store_directives k ds' w1"
    by (auto simp: apply_entry_directives_def split: sum.splits prod.splits)
  from apply_directives_reaches [OF a assms(2)] obtain t d' t'
    where t: "dstep {} w t" "load_directive L d k t = Inr (d', t')" "dstep {} t' w1" by blast
  have "dstep {k} t' w'"
    using dstep_mono [OF t(3), of "{k}"] dstep_store_same [OF a] w' dstep_trans by blast
  then show ?thesis using t by blast
qed

lemma drel_plain: "list_all2 drel ds ds' \<Longrightarrow> mark d = d \<Longrightarrow> d \<in> set ds \<Longrightarrow> d \<in> set ds'"
  by (induction rule: list_all2_induct) (auto simp: drel_def)

lemma apply_load_directives_reaches:
  assumes "apply_load_directives L w = Inr w'"
    and "map_of (plugin_data w) k = Some e" and "d \<in> set (load_directives e)" and "mark d = d"
  shows "\<exists>t d' t'. dstep UNIV w t \<and> load_directive L d k t = Inr (d', t') \<and> dstep UNIV t' w'"
proof -
  have k: "k \<in> set (map fst (plugin_data w))"
    using assms(2) by (metis map_of_eq_None_iff option.distinct(1) set_map)
  from for_each_reaches [where R = "dstep UNIV", OF assms(1) [unfolded apply_load_directives_def] k]
  obtain u u' where u: "dstep UNIV w u" "apply_entry_directives L k u = Inr u'" "dstep UNIV u' w'"
    using dstep_trans dstep_mono [OF dstep_apply_entry_directives] by (metis dstep_refl subset_UNIV)
  from dstep_map_of [OF u(1) assms(2)] obtain e' where e':
    "map_of (plugin_data u) k = Some e'" "erel UNIV (k, e) (k, e')" by blast
  then have "d \<in> set (load_directives (entry_of (plugin_data u) k))"
    using drel_plain [OF _ assms(4) assms(3)] by (simp add: erel_def entry_of_def)
  from apply_entry_directives_reaches [OF u(2) this] obtain t d' t'
    where t: "dstep {} u t" "load_directive L d k t = Inr (d', t')" "dstep {k} t' u'" by blast
  have "dstep UNIV w t" using u(1) t(1) dstep_mono dstep_trans by (metis subset_UNIV)
  moreover have "dstep UNIV t' w'" using u(3) t(3) dstep_mono dstep_trans by (metis subset_UNIV)
  ultimately show ?thesis using t(2) by blast
qed

section \<open>Load-after\<close>

lemma scan_services_rrel:
  "list_all2 rrel pd pd' \<Longrightarrow> scan_services s pd' = scan_services s pd"
proof (induction rule: list_all2_induct)
  case Nil
  then show ?case by simp
next
  case (Cons p ps q qs)
  then show ?case by (cases p, cases q) (auto simp: rrel_def split: option.splits)
qed

lemma rstep_resolve:
  "rstep w w' \<Longrightarrow> resolve_plugin_name r (plugin_data w') = resolve_plugin_name r (plugin_data w)"
  by (simp add: resolve_plugin_name_def rstep_def scan_services_rrel)

lemma dstep_resolve:
  "dstep K w w' \<Longrightarrow> resolve_plugin_name r (plugin_data w') = resolve_plugin_name r (plugin_data w)"
  by (rule rstep_resolve [OF dstep_rstep])

text \<open>Whether the entry under a key is absent, or present with a flag.\<close>

definition is_loaded :: "'h world \<Rightarrow> string \<Rightarrow> bool" where
  "is_loaded w k = (case map_of (plugin_data w) k of None \<Rightarrow> False | Some e \<Rightarrow> loaded e)"

definition may_load :: "'h world \<Rightarrow> string \<Rightarrow> bool" where
  "may_load w k = (case map_of (plugin_data w) k of None \<Rightarrow> False | Some e \<Rightarrow> can_load e)"

lemma dstep_is_loaded: "dstep K w w' \<Longrightarrow> is_loaded w' k = is_loaded w k"
proof (cases "map_of (plugin_data w) k")
  case None
  assume d: "dstep K w w'"
  have "map_of (plugin_data w') k = None"
  proof (rule ccontr)
    assume "map_of (plugin_data w') k \<noteq> None"
    then obtain e' where "map_of (plugin_data w') k = Some e'" by blast
    from dstep_map_of_rev [OF d this] None show False by simp
  qed
  then show ?thesis using None by (simp add: is_loaded_def)
next
  case (Some e)
  assume d: "dstep K w w'"
  from dstep_map_of [OF d Some] show ?thesis using Some by (auto simp: is_loaded_def erel_def)
qed

lemma dstep_may_load: "dstep K w w' \<Longrightarrow> may_load w' k \<Longrightarrow> may_load w k"
proof -
  assume d: "dstep K w w'" and m: "may_load w' k"
  then obtain e' where e': "map_of (plugin_data w') k = Some e'" "can_load e'"
    by (auto simp: may_load_def split: option.splits)
  from dstep_map_of_rev [OF d e'(1)] e'(2) show ?thesis
    by (auto simp: may_load_def erel_def)
qed

lemma may_load_clear: "\<not> may_load (clear_can_load k w) k"
proof (cases "map_of (plugin_data w) k")
  case None
  then show ?thesis by (simp add: may_load_def clear_can_load_def map_of_map_entry)
next
  case (Some e)
  then show ?thesis by (simp add: may_load_def clear_can_load_def map_of_map_entry)
qed

lemma load_after_blocks:
  assumes "directive_load_after r k w = Inr w'"
    and "b \<in> set (fst (resolve_plugin_name r (plugin_data w)))"
  shows "is_loaded w b \<or> \<not> may_load w' k"
proof -
  let ?body = "\<lambda>module_name w. case map_of (plugin_data w) module_name of
                 None \<Rightarrow> Inl (KeyError module_name, w)
               | Some module_entry \<Rightarrow>
                   if \<not> loaded module_entry then Inr (clear_can_load k w) else Inr w"
  have "\<exists>t t'. dstep {} w t \<and> ?body b t = Inr t' \<and> dstep {} t' w'"
    by (rule for_yielded_reaches [where R = "dstep {}",
          OF assms(1) [unfolded directive_load_after_def] assms(2)])
       (auto intro: dstep_trans dstep_clear_can_load split: option.splits)
  then obtain t t' where t: "dstep {} w t" "?body b t = Inr t'" "dstep {} t' w'" by blast
  show ?thesis
  proof (cases "is_loaded t b")
    case True
    then show ?thesis using dstep_is_loaded [OF t(1)] by simp
  next
    case False
    with t(2) have "t' = clear_can_load k t"
      by (auto simp: is_loaded_def split: option.splits if_splits)
    then have "\<not> may_load t' k" by (simp add: may_load_clear)
    then show ?thesis using dstep_may_load [OF t(3)] by blast
  qed
qed

lemma load_after_pass:
  assumes "apply_load_directives L w = Inr w'"
    and "map_of (plugin_data w) k = Some e" and "LoadAfter r \<in> set (load_directives e)"
    and "b \<in> set (fst (resolve_plugin_name r (plugin_data w)))"
  shows "is_loaded w b \<or> \<not> may_load w' k"
proof -
  have "mark (LoadAfter r) = LoadAfter r" by (simp add: mark_def)
  from apply_load_directives_reaches [OF assms(1-3) this] obtain t d' t'
    where t: "dstep UNIV w t" "load_directive L (LoadAfter r) k t = Inr (d', t')"
      "dstep UNIV t' w'" by blast
  from t(2) have a: "directive_load_after r k t = Inr t'"
    by (auto simp: unchanged_def split: sum.splits prod.splits)
  have "b \<in> set (fst (resolve_plugin_name r (plugin_data t)))"
    using assms(4) dstep_resolve [OF t(1)] by simp
  from load_after_blocks [OF a this] show ?thesis
    using dstep_is_loaded [OF t(1)] dstep_may_load [OF t(3)] by blast
qed


lemma load_plugins_ends:
  assumes "I w" and "\<And>v v' a b. I v \<Longrightarrow> cycle L v = Inr (v', a, b) \<Longrightarrow> I v'"
    and "\<And>v. I v \<Longrightarrow> Q (fst (final (cycle L v)))"
  shows "Q (final (load_plugins L w))"
proof (cases "load_plugins L w")
  case (Inr w')
  from Inr assms(1) obtain v a where "I v" "cycle L v = Inr (w', a, True)"
    by (rule load_plugins_Inr [where I = I]) (rule assms(2))
  then show ?thesis using assms(3) [of v] Inr by simp
next
  case (Inl r)
  obtain e w' where r: "r = (e, w')" by (cases r)
  show ?thesis
  proof (rule load_plugins_Inl [where I = I, OF Inl [unfolded r] assms(1)])
    fix v a b assume "I v" "cycle L v = Inl (e, w', a, b)"
    then show ?thesis using assms(3) [of v] Inl r by simp
  next
    fix v assume "I v" "cycle L v = Inr (w', False, False)"
    then show ?thesis using assms(3) [of v] Inl r by simp
  qed (rule assms(2))
qed

text \<open>The events that a step adds to the trace.\<close>

definition news :: "'h world \<Rightarrow> 'h world \<Rightarrow> event list" where
  "news v v' = drop (length (trace v)) (trace v')"

lemma news_append: "trace v' = trace v @ evs \<Longrightarrow> news v v' = evs"
  by (simp add: news_def)

definition lload :: "string list \<Rightarrow> 'h world \<Rightarrow> 'h world \<Rightarrow> bool" where
  "lload ks v v' \<longleftrightarrow>
     (reg_ok (plugin_data v) \<and> keys v = ks \<longrightarrow>
        lstep v v' \<and> (\<forall>k \<in> set (load_order (news v v')). may_load v k \<and> \<not> is_loaded v k))"

lemma lstep_map_of:
  assumes "lstep w w'" and "map_of (plugin_data w) k = Some e"
  shows "\<exists>e'. map_of (plugin_data w') k = Some e' \<and> lrel (k, e) (k, e')"
  using assms unfolding lstep_def
  by (intro list_all2_map_of [where R = lrel]) (auto simp: lrel_def)

lemma lstep_map_of_rev:
  assumes "lstep w w'" and "map_of (plugin_data w') k = Some e'"
  shows "\<exists>e. map_of (plugin_data w) k = Some e \<and> lrel (k, e) (k, e')"
  using assms unfolding lstep_def
  by (intro list_all2_map_of_rev [where R = lrel]) (auto simp: lrel_def)

lemma lstep_may_load: "lstep w w' \<Longrightarrow> may_load w' k \<Longrightarrow> may_load w k"
proof -
  assume d: "lstep w w'" and m: "may_load w' k"
  then obtain e' where e': "map_of (plugin_data w') k = Some e'" "can_load e'"
    by (auto simp: may_load_def split: option.splits)
  from lstep_map_of_rev [OF d e'(1)] e'(2) show ?thesis
    by (auto simp: may_load_def lrel_def)
qed

lemma lstep_is_loaded: "lstep w w' \<Longrightarrow> is_loaded w k \<Longrightarrow> is_loaded w' k"
proof -
  assume d: "lstep w w'" and m: "is_loaded w k"
  then obtain e where e: "map_of (plugin_data w) k = Some e" "loaded e"
    by (auto simp: is_loaded_def split: option.splits)
  from lstep_map_of [OF d e(1)] e(2) show ?thesis
    by (auto simp: is_loaded_def lrel_def)
qed

lemma lload_refl: "lload ks v v"
  by (simp add: lload_def news_def)

lemma lload_trans:
  assumes "lload ks a b" and "lload ks b c"
  shows "lload ks a c"
  unfolding lload_def
proof (intro impI)
  assume r: "reg_ok (plugin_data a) \<and> keys a = ks"
  then have ab: "lstep a b" "\<forall>k \<in> set (load_order (news a b)). may_load a k \<and> \<not> is_loaded a k"
    using assms(1) by (simp_all add: lload_def)
  have "reg_ok (plugin_data b)" using rstep_reg_ok [OF lstep_rstep [OF ab(1)]] r by simp
  moreover have "keys b = ks" using rstep_keys [OF lstep_rstep [OF ab(1)]] r by simp
  ultimately have bc: "lstep b c"
    "\<forall>k \<in> set (load_order (news b c)). may_load b k \<and> \<not> is_loaded b k"
    using assms(2) by (simp_all add: lload_def)
  from ab(1) bc(1) obtain xs ys where x: "trace b = trace a @ xs" and y: "trace c = trace b @ ys"
    by (auto simp: lstep_def)
  then have n: "news a c = news a b @ news b c" by (simp add: news_def)
  have "may_load a k \<and> \<not> is_loaded a k" if "k \<in> set (load_order (news b c))" for k
    using bc(2) that lstep_may_load [OF ab(1)] lstep_is_loaded [OF ab(1)] by blast
  then show "lstep a c \<and> (\<forall>k \<in> set (load_order (news a c)). may_load a k \<and> \<not> is_loaded a k)"
    using ab bc(1) n lstep_trans by auto
qed

lemma lload_load_step:
  assumes "k \<in> set ks"
  shows "lload ks (fst s) (fst (final (load_step L k s)))"
proof -
  obtain v a b where s: "s = (v, a, b)" by (cases s)
  show ?thesis
  proof (cases "\<not> loaded (entry_of (plugin_data v) k) \<and> can_load (entry_of (plugin_data v) k)")
    case False
    then show ?thesis by (auto simp: s load_step_def lload_refl)
  next
    case True
    let ?v' = "final (load_plugin L k v)"
    have f: "fst (final (load_step L k (v, a, b))) = ?v'"
      using True by (auto simp: load_step_def split: sum.splits)
    have l: "lstep v ?v'" by (rule lstep_load_plugin)
    have t: "trace ?v' = trace v @ [Import (name (entry_of (plugin_data v) k))]"
      using load_plugin_shape [where L = L and k = k and w = v] by (cases "load_plugin L k v") auto
    have m: "may_load v n \<and> \<not> is_loaded v n"
      if r: "reg_ok (plugin_data v)" "keys v = ks" and n: "n \<in> set (load_order (news v ?v'))"
      for n
    proof -
      from n have n': "n = name (entry_of (plugin_data v) k)"
        by (simp add: news_append [OF t])
      from assms r obtain e where e: "map_of (plugin_data v) k = Some e"
        by (auto simp: keys_def dest!: weak_map_of_SomeI)
      then have "(k, e) \<in> set (plugin_data v)" by (rule map_of_SomeD)
      then have "name e = k" using r by (auto simp: reg_ok_def)
      then show ?thesis using True e n'
        by (simp add: entry_of_def may_load_def is_loaded_def)
    qed
    have "lload ks v ?v'" using l m by (auto simp: lload_def)
    then show ?thesis by (simp add: f s)
  qed
qed

lemma lload_load_loop:
  assumes "reg_ok (plugin_data v)"
  shows "lstep v (fst (final (load_loop L v)))"
    and "\<forall>k \<in> set (load_order (news v (fst (final (load_loop L v))))).
           may_load v k \<and> \<not> is_loaded v k"
proof -
  let ?R = "\<lambda>s s'. lload (keys v) (fst s) (fst s')"
  have "?R (v, False, True) (final (load_loop L v))"
    unfolding load_loop_def
  proof (rule for_each_final [where R = ?R])
    fix a b c assume "?R a b" "?R b c"
    then show "?R a c" by (rule lload_trans)
  next
    fix x t assume "x \<in> set (map fst (plugin_data v))"
    then show "?R t (final (load_step L x t))" by (intro lload_load_step) (simp add: keys_def)
  qed (rule lload_refl)
  then show "lstep v (fst (final (load_loop L v)))"
    and "\<forall>k \<in> set (load_order (news v (fst (final (load_loop L v))))).
           may_load v k \<and> \<not> is_loaded v k"
    using assms by (simp_all add: lload_def)
qed


definition declares :: "'h world \<Rightarrow> string \<Rightarrow> directive \<Rightarrow> bool" where
  "declares w k d =
     (case map_of (plugin_data w) k of None \<Rightarrow> False | Some e \<Rightarrow> d \<in> set (load_directives e))"

lemma rstep_declares:
  assumes "rstep w w'" and "declares w k d" and "mark d = d"
  shows "declares w' k d"
proof -
  from assms(2) obtain e where e: "map_of (plugin_data w) k = Some e" "d \<in> set (load_directives e)"
    by (auto simp: declares_def split: option.splits)
  have "\<exists>e'. map_of (plugin_data w') k = Some e' \<and> rrel (k, e) (k, e')"
    using assms(1) e(1) unfolding rstep_def
    by (intro list_all2_map_of [where R = rrel]) (auto simp: rrel_def)
  then obtain e' where e': "map_of (plugin_data w') k = Some e'"
    "list_all2 drel (load_directives e) (load_directives e')"
    by (auto simp: rrel_def)
  from drel_plain [OF e'(2) assms(3) e(2)] e'(1) show ?thesis by (simp add: declares_def)
qed

lemma sync_is_loaded: "sync w \<Longrightarrow> is_loaded w k \<Longrightarrow> k \<in> set (load_order (trace w))"
  by (auto simp: sync_def is_loaded_def split: option.splits dest!: map_of_SomeD)

text \<open>
  What a cycle adds to the trace: its mark, and then events among which a plugin
  that declares \<open>load-after\<close> is imported only if what it waits for was loaded when
  the cycle began.
\<close>

lemma cycle_load_after:
  assumes "sync w" and "declares w a (LoadAfter r)"
    and "b \<in> set (fst (resolve_plugin_name r (plugin_data w)))"
  shows "\<exists>new. trace (fst (final (cycle L w))) = trace w @ Cycle # new \<and>
           (a \<in> set (load_order new) \<longrightarrow> b \<in> set (load_order (trace w)))"
proof -
  let ?w1 = "reset_can_load (w\<lparr>trace := trace w @ [Cycle]\<rparr>)"
  let ?v = "final (apply_load_directives L ?w1)"
  have t1: "trace ?w1 = trace w @ [Cycle]" by (simp add: reset_can_load_def)
  have r1: "rstep w ?w1" by (rule rstep_reset)
  have d: "dstep UNIV ?w1 ?v" by (rule dstep_apply_load_directives)
  then obtain hs where hs: "trace ?v = trace ?w1 @ hs" "list_all is_invoke hs"
    by (auto simp: dstep_def)
  have lo: "load_order hs = []" using hs(2) by (rule load_order_invokes)
  show ?thesis
  proof (cases "apply_load_directives L ?w1")
    case (Inl q)
    obtain e v where q: "q = (e, v)" by (cases q)
    have "trace (fst (final (cycle L w))) = trace w @ Cycle # hs"
      using hs(1) t1 Inl q by (simp add: cycle_def)
    then show ?thesis using lo by auto
  next
    case (Inr v)
    have v: "?v = v" using Inr by simp
    let ?v' = "fst (final (load_loop L v))"
    have c: "fst (final (cycle L w)) = ?v'" using Inr by (simp add: cycle_def)
    have sv: "sync v" using dstep_sync [OF d reset_sync [OF assms(1)]] v by simp
    then have "reg_ok (plugin_data v)" by (simp add: sync_def)
    note ll = lload_load_loop [OF this, of L]
    from ll(1) obtain ims where ims: "trace ?v' = trace v @ ims" by (auto simp: lstep_def)
    have n: "news v ?v' = ims" using ims by (rule news_append)
    have tr: "trace ?v' = trace w @ Cycle # (hs @ ims)" using ims hs(1) t1 v by simp
    have "b \<in> set (load_order (trace w))" if "a \<in> set (load_order (hs @ ims))"
    proof -
      from that have "a \<in> set (load_order ims)" using lo by simp
      then have m: "may_load v a" using ll(2) n by simp
      from rstep_declares [OF r1 assms(2)] obtain e
        where e: "map_of (plugin_data ?w1) a = Some e" "LoadAfter r \<in> set (load_directives e)"
        by (auto simp: declares_def mark_def split: option.splits)
      have "b \<in> set (fst (resolve_plugin_name r (plugin_data ?w1)))"
        using assms(3) rstep_resolve [OF r1] by simp
      from load_after_pass [OF Inr e this] m have "is_loaded ?w1 b" by simp
      then have "is_loaded v b" using dstep_is_loaded [OF d] v by simp
      then have "b \<in> set (load_order (trace v))" using sv by (rule sync_is_loaded [rotated])
      then show ?thesis using hs(1) t1 lo v by simp
    qed
    then show ?thesis using tr c by auto
  qed
qed

lemma load_order_split:
  "a \<in> set (load_order evs) \<Longrightarrow> \<exists>ys zs. evs = ys @ Import a # zs"
  by (induction evs rule: load_order.induct) (auto intro: Cons_eq_appendI)

lemma import_load_order: "Import a \<in> set evs \<longleftrightarrow> a \<in> set (load_order evs)"
  by (induction evs rule: load_order.induct) auto

text \<open>
  \<open>earlier b a evs\<close>: if \<open>a\<close> is imported at all, then it is imported in a cycle
  before whose mark \<open>b\<close> was imported.
\<close>

definition earlier :: "string \<Rightarrow> string \<Rightarrow> event list \<Rightarrow> bool" where
  "earlier b a evs \<longleftrightarrow>
     (a \<in> set (load_order evs) \<longrightarrow>
        (\<exists>xs ys zs. evs = xs @ Cycle # ys @ Import a # zs \<and> b \<in> set (load_order xs)))"

lemma earlier_cycle:
  assumes "earlier b a evs"
    and "a \<in> set (load_order new) \<longrightarrow> b \<in> set (load_order evs)"
  shows "earlier b a (evs @ Cycle # new)"
  unfolding earlier_def
proof
  assume "a \<in> set (load_order (evs @ Cycle # new))"
  then consider "a \<in> set (load_order evs)" | "a \<in> set (load_order new)" by auto
  then show "\<exists>xs ys zs. evs @ Cycle # new = xs @ Cycle # ys @ Import a # zs \<and>
               b \<in> set (load_order xs)"
  proof cases
    case 1
    with assms(1) obtain xs ys zs
      where "evs = xs @ Cycle # ys @ Import a # zs" "b \<in> set (load_order xs)"
      by (auto simp: earlier_def)
    then have "evs @ Cycle # new = xs @ Cycle # ys @ Import a # (zs @ Cycle # new)" by simp
    then show ?thesis using \<open>b \<in> set (load_order xs)\<close> by blast
  next
    case 2
    from load_order_split [OF 2] obtain ys zs where "new = ys @ Import a # zs" by blast
    then have "evs @ Cycle # new = evs @ Cycle # ys @ Import a # zs" by simp
    then show ?thesis using assms(2) 2 by blast
  qed
qed

lemma load_after_run:
  assumes "sync w" and "declares w a (LoadAfter r)"
    and "b \<in> set (fst (resolve_plugin_name r (plugin_data w)))" and "earlier b a (trace w)"
  shows "earlier b a (trace (final (load_plugins L w)))"
proof -
  let ?I = "\<lambda>v. sync v \<and> declares v a (LoadAfter r) \<and>
              b \<in> set (fst (resolve_plugin_name r (plugin_data v))) \<and> earlier b a (trace v)"
  have fin: "earlier b a (trace (fst (final (cycle L v))))" if "?I v" for v
  proof -
    from cycle_load_after [of v a r b L] that obtain new
      where "trace (fst (final (cycle L v))) = trace v @ Cycle # new"
        "a \<in> set (load_order new) \<longrightarrow> b \<in> set (load_order (trace v))" by blast
    then show ?thesis using earlier_cycle [of b a "trace v" new] that by simp
  qed
  have step: "?I v'" if "?I v" "cycle L v = Inr (v', x, y)" for v v' x y
  proof -
    have r: "rstep v v'" using rstep_cycle [of v L] that(2) by simp
    have m: "mark (LoadAfter r) = LoadAfter r" by (simp add: mark_def)
    show ?thesis
      using cycle_sync_Inr [OF _ that(2)] rstep_declares [OF r _ m] rstep_resolve [OF r, of r]
        fin [OF that(1)] that by simp
  qed
  show ?thesis
    by (rule load_plugins_ends [where I = ?I and Q = "\<lambda>v. earlier b a (trace v)"])
       (use assms step fin in blast)+
qed


text \<open>
  C7. A plugin \<open>a\<close> declares \<open>load-after\<close> with a reference that resolves to \<open>b\<close>
  (the identity itself, or a plugin of the service class after \<open>$\<close>). In every run
  of \<open>init\<close>, successful or not, if \<open>a\<close> is imported then \<open>b\<close> was imported before
  the cycle in which \<open>a\<close> is imported began.
\<close>

theorem load_after_loads_later:
  assumes "load_plugin_manifests found [] = Inr pd"
    and "map_of pd a = Some e" and "LoadAfter r \<in> set (load_directives e)"
    and "b \<in> set (fst (resolve_plugin_name r pd))"
    and "a \<in> set (load_order (trace (final (init L found))))"
  shows "\<exists>xs ys zs. trace (final (init L found)) = xs @ Cycle # ys @ Import a # zs \<and>
           b \<in> set (load_order xs)"
proof -
  have s: "sync (start pd)"
    by (rule fresh_sync [OF load_plugin_manifests_fresh [OF assms(1)]])
  have d: "declares (start pd) a (LoadAfter r)"
    using assms(2,3) by (simp add: declares_def start_def)
  have b: "b \<in> set (fst (resolve_plugin_name r (plugin_data (start pd))))"
    using assms(4) by (simp add: start_def)
  have "earlier b a (trace (start pd))" by (simp add: earlier_def start_def)
  from load_after_run [OF s d b this, of L] assms(5) show ?thesis
    by (simp add: init_def assms(1) earlier_def)
qed

theorem load_after_loads_later_witness:
  "''a'' \<in> set (load_order (trace (final (init stub_loader
      [manifest_0_1_0 ''a'' None (Some [LoadAfter ''b'']), manifest_0_1_0 ''b'' None None])))) \<and>
   (\<exists>xs ys zs. trace (final (init stub_loader
      [manifest_0_1_0 ''a'' None (Some [LoadAfter ''b'']), manifest_0_1_0 ''b'' None None]))
        = xs @ Cycle # ys @ Import ''a'' # zs \<and> ''b'' \<in> set (load_order xs))"
proof -
  let ?found = "[manifest_0_1_0 ''a'' None (Some [LoadAfter ''b'']), manifest_0_1_0 ''b'' None None]"
  let ?ea = "\<lparr>name = ''a'', human_name = ''a'', service = None, requirements = [],
              load_directives = [LoadAfter ''b''], files = [], loaded = False, can_load = False\<rparr>"
  let ?eb = "\<lparr>name = ''b'', human_name = ''b'', service = None, requirements = [],
              load_directives = [], files = [], loaded = False, can_load = False\<rparr>"
  have 1: "load_plugin_manifests ?found [] = Inr [(''a'', ?ea), (''b'', ?eb)]" by code_simp
  have 2: "map_of [(''a'', ?ea), (''b'', ?eb)] ''a'' = Some ?ea" by simp
  have 3: "LoadAfter ''b'' \<in> set (load_directives ?ea)" by simp
  have 4: "''b'' \<in> set (fst (resolve_plugin_name ''b'' [(''a'', ?ea), (''b'', ?eb)]))"
    by (simp add: resolve_plugin_name_def)
  have 5: "''a'' \<in> set (load_order (trace (final (init stub_loader ?found))))" by code_simp
  from load_after_loads_later [OF 1 2 3 4 5] 5 show ?thesis by blast
qed

section \<open>Single instantiation\<close>









section \<open>The first cycle\<close>

text \<open>
  While nothing is loaded no hook is called, and the directive pass can only raise
  \<open>KeyError\<close> or \<open>DeniedPlugin\<close>.
\<close>

fun directive_error :: "error \<Rightarrow> bool" where
  "directive_error (KeyError k) = True"
| "directive_error DeniedPlugin = True"
| "directive_error e = False"

definition quiet :: "'s result \<Rightarrow> bool" where
  "quiet r = (case r of Inl (e, s) \<Rightarrow> directive_error e | Inr s \<Rightarrow> True)"

lemma quiet_simps [simp]: "quiet (Inl (e, s)) = directive_error e" "quiet (Inr s)"
  by (simp_all add: quiet_def)

lemma for_each_quiet: "(\<And>x t. quiet (body x t)) \<Longrightarrow> quiet (for_each body xs s)"
proof (induction xs arbitrary: s)
  case Nil
  then show ?case by simp
next
  case (Cons x xs)
  show ?case
  proof (cases "body x s")
    case (Inl r)
    then show ?thesis using Cons.prems [of x s] by simp
  next
    case (Inr t)
    then show ?thesis using Cons.IH [OF Cons.prems] by simp
  qed
qed

lemma scan_services_error:
  "snd (scan_services s pd) = Some e \<Longrightarrow> e = KeyError ''service''"
  by (induction s pd rule: scan_services.induct) (auto split: option.splits if_splits)

lemma resolve_error: "snd (resolve_plugin_name r pd) = Some e \<Longrightarrow> e = KeyError ''service''"
  by (auto simp: resolve_plugin_name_def split: if_splits dest: scan_services_error)

lemma for_yielded_quiet:
  assumes "\<And>x t. quiet (body x t)"
  shows "quiet (for_yielded body (resolve_plugin_name r pd) s)"
proof -
  have "quiet (for_each body (fst (resolve_plugin_name r pd)) s)"
    using assms by (rule for_each_quiet)
  then show ?thesis
    by (auto simp: for_yielded_def split: sum.splits option.splits dest: resolve_error)
qed

lemma load_before_quiet:
  "quiet (directive_load_before r k w) \<and> trace (final (directive_load_before r k w)) = trace w"
proof
  show "quiet (directive_load_before r k w)"
    unfolding directive_load_before_def
    by (rule for_yielded_quiet) (auto split: option.splits)
  show "trace (final (directive_load_before r k w)) = trace w"
    unfolding directive_load_before_def
    by (rule for_yielded_final [where R = "\<lambda>a b. trace b = trace a"])
       (auto simp: clear_can_load_def split: option.splits)
qed

lemma load_after_quiet:
  "quiet (directive_load_after r k w) \<and> trace (final (directive_load_after r k w)) = trace w"
proof
  show "quiet (directive_load_after r k w)"
    unfolding directive_load_after_def
    by (rule for_yielded_quiet) (auto split: option.splits)
  show "trace (final (directive_load_after r k w)) = trace w"
    unfolding directive_load_after_def
    by (rule for_yielded_final [where R = "\<lambda>a b. trace b = trace a"])
       (auto simp: clear_can_load_def split: option.splits)
qed

lemma load_deny_quiet:
  "quiet (directive_load_deny r k w) \<and> trace (final (directive_load_deny r k w)) = trace w"
proof
  show "quiet (directive_load_deny r k w)"
    unfolding directive_load_deny_def
    by (rule for_yielded_quiet) (auto split: option.splits)
  show "trace (final (directive_load_deny r k w)) = trace w"
    unfolding directive_load_deny_def
    by (rule for_yielded_final [where R = "\<lambda>a b. trace b = trace a"])
       (auto split: option.splits)
qed

lemma required_loaded_error: "required_loaded pd ns = Inl e \<Longrightarrow> directive_error e"
  by (induction pd ns rule: required_loaded.induct) (auto split: option.splits if_splits)

definition waiting :: "'h world \<Rightarrow> string \<Rightarrow> bool" where
  "waiting w k = (case map_of (plugin_data w) k of None \<Rightarrow> False | Some e \<Rightarrow> \<not> loaded e)"

lemma dstep_waiting: "dstep K w w' \<Longrightarrow> waiting w k \<Longrightarrow> waiting w' k"
proof -
  assume d: "dstep K w w'" and "waiting w k"
  then obtain e where e: "map_of (plugin_data w) k = Some e" "\<not> loaded e"
    by (auto simp: waiting_def split: option.splits)
  from dstep_map_of [OF d e(1)] e(2) show ?thesis by (auto simp: waiting_def erel_def)
qed

lemma run_after_load_quiet:
  assumes "waiting w k"
  shows "quiet (directive_run_after_load L r m ex k w) \<and>
         trace (snd (final (directive_run_after_load L r m ex k w))) = trace w"
proof -
  have n: "\<not> loaded (entry_of (plugin_data w) k)"
    using assms by (auto simp: waiting_def entry_of_def split: option.splits)
  show ?thesis
  proof (cases "required_loaded (plugin_data w) (fst (resolve_plugin_name r (plugin_data w)))")
    case (Inl e)
    then show ?thesis
      by (auto simp: directive_run_after_load_def Let_def dest: required_loaded_error)
  next
    case (Inr b)
    then show ?thesis using n
      by (cases "snd (resolve_plugin_name r (plugin_data w))"; cases b)
         (auto simp: directive_run_after_load_def Let_def dest: resolve_error)
  qed
qed

lemma load_directive_quiet:
  assumes "waiting w k"
  shows "quiet (load_directive L d k w) \<and> trace (snd (final (load_directive L d k w))) = trace w"
proof (cases d)
  case (LoadBefore r)
  then show ?thesis using load_before_quiet [of r k w]
    by (auto simp: unchanged_def split: sum.splits)
next
  case (LoadAfter r)
  then show ?thesis using load_after_quiet [of r k w]
    by (auto simp: unchanged_def split: sum.splits)
next
  case (LoadDeny r)
  then show ?thesis using load_deny_quiet [of r k w]
    by (auto simp: unchanged_def split: sum.splits)
next
  case (RunAfterLoad r m ex)
  then show ?thesis using run_after_load_quiet [OF assms] by simp
next
  case (OtherDirective t)
  then show ?thesis by simp
qed

lemma apply_directives_quiet:
  assumes "waiting w k"
  shows "quiet (apply_directives L k ds w) \<and>
         trace (snd (final (apply_directives L k ds w))) = trace w"
  using assms
proof (induction ds arbitrary: w)
  case Nil
  then show ?case by simp
next
  case (Cons d ds)
  note h = load_directive_quiet [OF Cons.prems, of L d]
  show ?case
  proof (cases "load_directive L d k w")
    case (Inl q)
    then show ?thesis using h by (cases q) auto
  next
    case (Inr q)
    obtain d' w' where q: "q = (d', w')" by (cases q)
    have "dstep {} w w'" using dstep_load_directive [of w L d k] Inr q by simp
    then have "waiting w' k" using Cons.prems by (rule dstep_waiting)
    note ih = Cons.IH [OF this]
    show ?thesis
    proof (cases "apply_directives L k ds w'")
      case (Inl p)
      then show ?thesis using h ih Inr q by (cases p) auto
    next
      case r: (Inr p)
      then show ?thesis using h ih Inr q by (cases p) auto
    qed
  qed
qed

lemma apply_entry_directives_quiet:
  assumes "waiting w k"
  shows "quiet (apply_entry_directives L k w) \<and>
         trace (final (apply_entry_directives L k w)) = trace w"
proof -
  note h = apply_directives_quiet [OF assms, of L "load_directives (entry_of (plugin_data w) k)"]
  show ?thesis
  proof (cases "apply_directives L k (load_directives (entry_of (plugin_data w) k)) w")
    case (Inl q)
    obtain e ds w' where "q = (e, ds, w')" by (cases q)
    then show ?thesis using h Inl by (simp add: apply_entry_directives_def store_directives_def)
  next
    case (Inr q)
    obtain ds w' where "q = (ds, w')" by (cases q)
    then show ?thesis using h Inr by (simp add: apply_entry_directives_def store_directives_def)
  qed
qed

definition none_loaded :: "'h world \<Rightarrow> bool" where
  "none_loaded w \<longleftrightarrow> (\<forall>p \<in> set (plugin_data w). \<not> loaded (snd p))"

lemma none_loaded_waiting:
  assumes "none_loaded w" and "k \<in> set (keys w)"
  shows "waiting w k"
proof -
  from assms(2) obtain e where e: "map_of (plugin_data w) k = Some e"
    by (auto simp: keys_def dest!: weak_map_of_SomeI)
  then have "(k, e) \<in> set (plugin_data w)" by (rule map_of_SomeD)
  then have "\<not> loaded e" using assms(1) by (auto simp: none_loaded_def)
  then show ?thesis using e by (simp add: waiting_def)
qed

lemma dstep_none_loaded:
  assumes "dstep K w w'" and "none_loaded w"
  shows "none_loaded w'"
proof -
  have "\<not> loaded (snd q)" if "q \<in> set (plugin_data w')" for q
  proof -
    from assms(1) that obtain p where "p \<in> set (plugin_data w)" "erel K p q"
      unfolding dstep_def by (blast dest: list_all2_set2)
    then show ?thesis using assms(2) by (auto simp: none_loaded_def erel_def)
  qed
  then show ?thesis by (simp add: none_loaded_def)
qed

lemma apply_load_directives_quiet:
  assumes "none_loaded w"
  shows "quiet (apply_load_directives L w) \<and> trace (final (apply_load_directives L w)) = trace w"
proof -
  let ?P = "\<lambda>t. none_loaded t \<and> keys t = keys w \<and> trace t = trace w"
  have step: "?P (final (apply_entry_directives L x t)) \<and> quiet (apply_entry_directives L x t)"
    if "x \<in> set (keys w)" "?P t" for x t
  proof -
    have w: "waiting t x" using that by (intro none_loaded_waiting) simp_all
    have d: "dstep {x} t (final (apply_entry_directives L x t))"
      by (rule dstep_apply_entry_directives)
    show ?thesis
      using apply_entry_directives_quiet [OF w, of L] dstep_none_loaded [OF d] dstep_keys [OF d]
        that(2) by simp
  qed
  show ?thesis
  proof (cases "apply_load_directives L w")
    case (Inr w')
    have "?P w'"
      using Inr [unfolded apply_load_directives_def]
    proof (rule for_each_Inr)
      show "?P w" using assms by simp
    next
      fix x t t' assume "x \<in> set (map fst (plugin_data w))" "?P t"
        "apply_entry_directives L x t = Inr t'"
      then show "?P t'" using step [of x t] by (simp add: keys_def)
    qed
    then show ?thesis using Inr by simp
  next
    case (Inl q)
    obtain e w' where q: "q = (e, w')" by (cases q)
    from Inl [unfolded apply_load_directives_def q] obtain x t
      where "x \<in> set (map fst (plugin_data w))" "?P t"
        "apply_entry_directives L x t = Inl (e, w')"
    proof (rule for_each_Inl [where P = ?P])
      show "?P w" using assms by simp
    next
      fix x t t' assume "x \<in> set (map fst (plugin_data w))" "?P t"
        "apply_entry_directives L x t = Inr t'"
      then show "?P t'" using step [of x t] by (simp add: keys_def)
    qed
    then show ?thesis using step [of x t] Inl q by (simp add: keys_def)
  qed
qed


lemma none_loaded_reset:
  "none_loaded w \<Longrightarrow> none_loaded (reset_can_load (w\<lparr>trace := trace w @ [Cycle]\<rparr>))"
  by (auto simp: none_loaded_def reset_can_load_def)

text \<open>A directive pass that raises while nothing is loaded ends the run in that cycle.\<close>

lemma first_cycle_raises:
  assumes "none_loaded w"
    and "apply_load_directives L (reset_can_load (w\<lparr>trace := trace w @ [Cycle]\<rparr>)) = Inl (e, w')"
  shows "load_plugins L w = Inl (e, w') \<and> directive_error e \<and> trace w' = trace w @ [Cycle]"
proof -
  let ?w1 = "reset_can_load (w\<lparr>trace := trace w @ [Cycle]\<rparr>)"
  have t1: "trace ?w1 = trace w @ [Cycle]" by (simp add: reset_can_load_def)
  from apply_load_directives_quiet [OF none_loaded_reset [OF assms(1)], of L] assms(2) t1
  have q: "directive_error e" "trace w' = trace w @ [Cycle]" by simp_all
  have "cycle L w = Inl (e, (w', False, True))" using assms(2) by (simp add: cycle_def)
  then have "load_plugins L w = Inl (e, w')"
    by (subst load_plugins.simps) simp
  then show ?thesis using q by simp
qed

text \<open>A directive that raises wherever it is evaluated makes the pass raise.\<close>

lemma pass_raises:
  assumes "map_of (plugin_data w) k = Some e" and "d \<in> set (load_directives e)"
    and "mark d = d"
    and "\<And>t. dstep UNIV w t \<Longrightarrow> \<exists>q. load_directive L d k t = Inl q"
  shows "\<exists>err w'. apply_load_directives L w = Inl (err, w')"
proof (cases "apply_load_directives L w")
  case (Inl q)
  then show ?thesis by (cases q) simp
next
  case (Inr w')
  from apply_load_directives_reaches [OF Inr assms(1-3)] obtain t d' t'
    where "dstep UNIV w t" "load_directive L d k t = Inr (d', t')" by blast
  then show ?thesis using assms(4) [of t] by auto
qed

lemma reset_map_of:
  "map_of (plugin_data (reset_can_load w)) k =
   map_option (\<lambda>e. e\<lparr>can_load := True\<rparr>) (map_of (plugin_data w) k)"
proof -
  have "map_of (map (\<lambda>(k, e). (k, e\<lparr>can_load := True\<rparr>)) pd) k =
        map_option (\<lambda>e. e\<lparr>can_load := True\<rparr>) (map_of pd k)" for pd :: "(string \<times> plugin_entry) list"
    by (induction pd) auto
  then show ?thesis by (simp add: reset_can_load_def)
qed

lemma fresh_none_loaded: "fresh pd \<Longrightarrow> none_loaded (start pd)"
  by (simp add: fresh_def none_loaded_def start_def)

text \<open>
  The first cycle of \<open>init\<close> on a registry in which an entry holds a directive that
  raises wherever it is evaluated.
\<close>

lemma init_first_cycle_raises:
  assumes "load_plugin_manifests found [] = Inr pd"
    and "map_of pd k = Some e" and "d \<in> set (load_directives e)" and "mark d = d"
    and "\<And>t :: 'h world. keys t = map fst pd \<Longrightarrow> reg_ok (plugin_data t) \<Longrightarrow>
           (\<And>r. resolve_plugin_name r (plugin_data t) = resolve_plugin_name r pd) \<Longrightarrow>
           \<exists>q. load_directive L d k t = Inl q"
  shows "\<exists>err. raised (init L found) = Some err \<and> directive_error err \<and>
           trace (final (init L found)) = [Cycle]"
proof -
  let ?w = "start pd :: 'h world"
  let ?w1 = "reset_can_load (?w\<lparr>trace := trace ?w @ [Cycle]\<rparr>)"
  have f: "fresh pd" by (rule load_plugin_manifests_fresh [OF assms(1)])
  have r1: "rstep ?w ?w1" by (rule rstep_reset)
  have m: "map_of (plugin_data ?w1) k = Some (e\<lparr>can_load := True\<rparr>)"
    using assms(2) by (simp add: reset_map_of) (simp add: start_def)
  have d: "d \<in> set (load_directives (e\<lparr>can_load := True\<rparr>))" using assms(3) by simp
  have "\<exists>q. load_directive L d k t = Inl q" if "dstep UNIV ?w1 t" for t
  proof (rule assms(5))
    have r: "rstep ?w t" using r1 dstep_rstep [OF that] by (rule rstep_trans)
    show "keys t = map fst pd" using rstep_keys [OF r] by (simp add: keys_def start_def)
    show "reg_ok (plugin_data t)"
      using rstep_reg_ok [OF r] f by (simp add: fresh_def start_def)
    show "resolve_plugin_name r' (plugin_data t) = resolve_plugin_name r' pd" for r'
      using rstep_resolve [OF r, of r'] by (simp add: start_def)
  qed
  from pass_raises [OF m d assms(4) this] obtain err w'
    where "apply_load_directives L ?w1 = Inl (err, w')" by blast
  from first_cycle_raises [OF fresh_none_loaded [OF f] this]
  show ?thesis by (simp add: init_def assms(1) start_def)
qed

section \<open>A reference to a plugin that is not registered\<close>

lemma unknown_before:
  "take 1 r \<noteq> ''$'' \<Longrightarrow> map_of (plugin_data w) r = None \<Longrightarrow>
   directive_load_before r k w = Inl (KeyError r, w)"
  by (simp add: directive_load_before_def resolve_plugin_name_def for_yielded_def)

lemma unknown_after:
  "take 1 r \<noteq> ''$'' \<Longrightarrow> map_of (plugin_data w) r = None \<Longrightarrow>
   directive_load_after r k w = Inl (KeyError r, w)"
  by (simp add: directive_load_after_def resolve_plugin_name_def for_yielded_def)

lemma unknown_deny:
  "take 1 r \<noteq> ''$'' \<Longrightarrow> map_of (plugin_data w) r = None \<Longrightarrow>
   directive_load_deny r k w = Inl (KeyError r, w)"
  by (simp add: directive_load_deny_def resolve_plugin_name_def for_yielded_def)

lemma keys_map_of_None: "keys t = map fst pd \<Longrightarrow> map_of pd r = None \<Longrightarrow> map_of (plugin_data t) r = None"
  by (metis keys_def map_of_eq_None_iff set_map)

text \<open>
  C10. A \<open>load-before\<close>, \<open>load-after\<close> or \<open>load-deny\<close> directive whose reference has
  no wildcard marker and names no registered plugin raises \<open>KeyError\<close> with that
  reference, in any world and for any subject, and leaves the world as it was. If an
  entry of the registry that \<open>init\<close> builds holds such a directive, \<open>init\<close> raises
  in the directive pass of its first cycle: the trace is the mark of that cycle and
  nothing else, and the error is one that a directive raises (that \<open>KeyError\<close>, or
  the error of a directive evaluated before it).
\<close>

theorem unknown_reference_raises:
  "(take 1 r \<noteq> ''$'' \<and> map_of (plugin_data w) r = None \<longrightarrow>
      directive_load_before r k w = Inl (KeyError r, w) \<and>
      directive_load_after r k w = Inl (KeyError r, w) \<and>
      directive_load_deny r k w = Inl (KeyError r, w)) \<and>
   (take 1 r \<noteq> ''$'' \<and> load_plugin_manifests found [] = Inr pd \<and> map_of pd r = None \<and>
    map_of pd a = Some e \<and>
    (LoadBefore r \<in> set (load_directives e) \<or> LoadAfter r \<in> set (load_directives e) \<or>
     LoadDeny r \<in> set (load_directives e)) \<longrightarrow>
      (\<exists>err. raised (init L found) = Some err \<and> directive_error err \<and>
         trace (final (init L found)) = [Cycle]))"
proof (intro conjI impI)
  assume "take 1 r \<noteq> ''$'' \<and> map_of (plugin_data w) r = None"
  then show "directive_load_before r k w = Inl (KeyError r, w)"
    and "directive_load_after r k w = Inl (KeyError r, w)"
    and "directive_load_deny r k w = Inl (KeyError r, w)"
    by (simp_all add: unknown_before unknown_after unknown_deny)
next
  assume h: "take 1 r \<noteq> ''$'' \<and> load_plugin_manifests found [] = Inr pd \<and> map_of pd r = None \<and>
    map_of pd a = Some e \<and>
    (LoadBefore r \<in> set (load_directives e) \<or> LoadAfter r \<in> set (load_directives e) \<or>
     LoadDeny r \<in> set (load_directives e))"
  then obtain d where d: "d \<in> set (load_directives e)" "d = LoadBefore r \<or> d = LoadAfter r \<or> d = LoadDeny r"
    by blast
  then have m: "mark d = d" by (auto simp: mark_def)
  have "\<exists>q. load_directive L d a t = Inl q" if "keys t = map fst pd" for t
  proof -
    have "map_of (plugin_data t) r = None" using that h by (blast intro: keys_map_of_None)
    then show ?thesis using d(2) h
      by (auto simp: unknown_before unknown_after unknown_deny unchanged_def)
  qed
  then show "\<exists>err. raised (init L found) = Some err \<and> directive_error err \<and>
         trace (final (init L found)) = [Cycle]"
    using h d(1) m by (intro init_first_cycle_raises [where k = a and e = e and d = d and pd = pd]) auto
qed

theorem unknown_reference_raises_witness:
  "take 1 ''zz'' \<noteq> ''$'' \<and> map_of (plugin_data (start [] :: string world)) ''zz'' = None \<and>
   directive_load_before ''zz'' ''a'' (start [] :: string world) = Inl (KeyError ''zz'', start []) \<and>
   directive_load_after ''zz'' ''a'' (start [] :: string world) = Inl (KeyError ''zz'', start []) \<and>
   directive_load_deny ''zz'' ''a'' (start [] :: string world) = Inl (KeyError ''zz'', start []) \<and>
   load_plugin_manifests [manifest_0_1_0 ''a'' None (Some [LoadAfter ''zz''])] [] =
     Inr [(''a'', \<lparr>name = ''a'', human_name = ''a'', service = None, requirements = [],
                   load_directives = [LoadAfter ''zz''], files = [], loaded = False,
                   can_load = False\<rparr>)] \<and>
   (\<exists>err. raised (init stub_loader [manifest_0_1_0 ''a'' None (Some [LoadAfter ''zz''])]) = Some err \<and>
      directive_error err \<and>
      trace (final (init stub_loader [manifest_0_1_0 ''a'' None (Some [LoadAfter ''zz''])])) = [Cycle])"
proof -
  let ?ms = "[manifest_0_1_0 ''a'' None (Some [LoadAfter ''zz''])]"
  let ?e = "\<lparr>name = ''a'', human_name = ''a'', service = None, requirements = [],
                   load_directives = [LoadAfter ''zz''], files = [], loaded = False,
                   can_load = False\<rparr>"
  let ?w = "start [] :: string world"
  have h1: "take 1 ''zz'' \<noteq> ''$''" by simp
  have h2: "map_of (plugin_data ?w) ''zz'' = None" by (simp add: start_def)
  have h3: "load_plugin_manifests ?ms [] = Inr [(''a'', ?e)]" by code_simp
  have h4: "map_of [(''a'', ?e)] ''zz'' = None" by simp
  have h5: "map_of [(''a'', ?e)] ''a'' = Some ?e" by simp
  have h6: "LoadAfter ''zz'' \<in> set (load_directives ?e)" by simp
  note t = unknown_reference_raises [of "''zz''" ?w "''a''" ?ms "[(''a'', ?e)]" "''a''" ?e stub_loader]
  from t h1 h2 have c1: "directive_load_before ''zz'' ''a'' ?w = Inl (KeyError ''zz'', ?w) \<and>
      directive_load_after ''zz'' ''a'' ?w = Inl (KeyError ''zz'', ?w) \<and>
      directive_load_deny ''zz'' ''a'' ?w = Inl (KeyError ''zz'', ?w)" by blast
  from t h1 h3 h4 h5 h6 have c2: "\<exists>err. raised (init stub_loader ?ms) = Some err \<and>
      directive_error err \<and> trace (final (init stub_loader ?ms)) = [Cycle]" by blast
  from h1 h2 h3 c1 c2 show ?thesis by blast
qed


section \<open>Load-deny\<close>













section \<open>Plugins that wait for each other\<close>


















section \<open>The service mapping\<close>

text \<open>
  C2. The claim: the service mapping of the loaded set is keyed by service class, and
  plugins sharing a class appear under one key. \<open>_load_plugin\<close> reads
  \<open>plugin_service\<close> from \<open>"name"\<close>: two plugins that both declare the class
  \<open>svc\<close> end under their own names, and no key \<open>svc\<close> exists.
\<close>

theorem services_keyed_by_name:
  "raised (init stub_loader [manifest_0_1_0 ''p1'' (Some ''svc'') None,
                             manifest_0_1_0 ''p2'' (Some ''svc'') None]) = None \<and>
   services (final (init stub_loader [manifest_0_1_0 ''p1'' (Some ''svc'') None,
                                      manifest_0_1_0 ''p2'' (Some ''svc'') None]))
     = [(''p1'', [''p1'']), (''p2'', [''p2''])]"
  by code_simp

section \<open>A manifest without a service class\<close>

text \<open>
  C3. The claim: a plugin whose manifest declares no service class has its identity
  as class, and a wildcard over a registry that holds it resolves. The normalizer
  supplies no \<open>"service"\<close>: the scan raises \<open>KeyError\<close> at the entry, and a run in
  which another plugin declares \<open>load-after($a)\<close> ends with it in the first cycle.
\<close>

theorem wildcard_without_service_raises:
  "load_plugin_manifests [manifest_0_1_0 ''a'' None None] []
     = Inr [(''a'', \<lparr>name = ''a'', human_name = ''a'', service = None, requirements = [],
                    load_directives = [], files = [], loaded = False, can_load = False\<rparr>)] \<and>
   resolve_plugin_name ''$a''
     [(''a'', \<lparr>name = ''a'', human_name = ''a'', service = None, requirements = [],
               load_directives = [], files = [], loaded = False, can_load = False\<rparr>)]
     = ([], Some (KeyError ''service'')) \<and>
   raised (init stub_loader [manifest_0_1_0 ''a'' None None,
                             manifest_0_1_0 ''b'' (Some ''s'') (Some [LoadAfter ''$a''])])
     = Some (KeyError ''service'')"
  by code_simp

section \<open>Plugin sets without directives\<close>




















end
